theory Spec2Isabelle
  imports Main
begin

section \<open>Data model of scraper.py\<close>

text \<open>
  The \<open>str\<close> values of the traversal (URLs, hrefs, titles) are modelled as \<open>string\<close>; a
  character stands for a code point below 256. The serialisation of the links is
  modelled on the code points of Python strings in full, see there. The title column
  holds a \<open>str\<close> in the placeholder rows of \<open>get_link\<close> and \<open>bytes\<close> in the rows of
  \<open>run_db_inserts\<close>.
\<close>

datatype py_text = Str string | Bytes string

text \<open>
  The value bound to the \<open>links\<close> column or carried by a queue entry: a Python list, a
  Python set (given by its iteration order) or an already serialised \<open>str\<close>.
\<close>

datatype 'a links_val = LinksList "'a list" | LinksSet "'a list" | LinksStr 'a

text \<open>The ORM class \<open>Page\<close> (table \<open>pages\<close>, primary key \<open>url\<close>).\<close>

record page =
  url :: string
  source_url :: string
  depth :: int
  title :: py_text
  links :: "string links_val"

text \<open>
  What \<open>BeautifulSoup(self.driver.page_source, "lxml")\<close> exposes to the scraper:
  \<open>soup.title\<close> is absent (\<open>None\<close>), or a tag whose \<open>.string\<close> is \<open>None\<close> or a \<open>str\<close>;
  \<open>soup.find_all("a")\<close> is the list of anchors, each with \<open>link.get("href")\<close>.
\<close>

record soup =
  title_tag :: "string option option"
  anchors :: "string option list"

text \<open>The state of the Selenium driver after a navigation.\<close>

record browser =
  current_url :: string
  page_source :: soup

datatype exn = AttributeError | ValueError | TypeError | StoreError

datatype log_msg =
    InfoResuming nat string
  | InfoStart string int
  | ErrorNoData string
  | InfoAllScraped string
  | ErrorScraping string
  | InfoScraped string int string
  | ErrorParsing string
  | ErrorSaving string

text \<open>The tuple \<open>(url, self.driver.current_url, depth, title, links)\<close> of \<open>scrape\<close>.\<close>

type_synonym entry = "string \<times> string \<times> int \<times> string \<times> string links_val"

text \<open>
  The immutable attributes of a \<open>Scraper\<close> together with its collaborators, which are
  not part of the repository and are taken as parameters:
  \<^item> \<open>driver_get\<close>: \<open>self.driver.get(url)\<close>, \<open>None\<close> when it raises, otherwise the driver's
    new state;
  \<^item> \<open>urljoin\<close> and \<open>urlparse_netloc\<close> (\<open>urlparse(x).netloc\<close>) of \<open>urllib.parse\<close>, \<open>None\<close>
    when they raise \<open>ValueError\<close>;
  \<^item> \<open>query_fails\<close>, \<open>commit_fails\<close>: whether the database raises on reading the row of
    a URL, or on writing a row for a reason other than the type of a value;
  \<^item> \<open>as_completed\<close>: the order in which \<open>concurrent.futures.as_completed\<close> yields the
    results of the submitted \<open>get_link\<close> calls.
\<close>

record config =
  initial_url :: string
  max_depth :: int
  max_threads :: nat
  driver_get :: "string \<Rightarrow> browser option"
  urljoin :: "string \<Rightarrow> string \<Rightarrow> string option"
  urlparse_netloc :: "string \<Rightarrow> string option"
  query_fails :: "string \<Rightarrow> bool"
  commit_fails :: "page \<Rightarrow> bool"
  as_completed :: "string list list \<Rightarrow> string list list"

text \<open>
  The mutable state: the attributes \<open>visited_urls\<close>, \<open>db_insert_queue\<close> (\<open>None\<close> is the
  shutdown sentinel) and \<open>driver\<close>, the table \<open>pages\<close> behind the global \<open>engine\<close>, the
  messages handed to \<open>logging\<close>, whether the insert thread has been started, and a
  trace \<open>fetched\<close> of every call of \<open>self.driver.get\<close> with the depth of the calling task.
\<close>

record state =
  visited_urls :: "string set"
  db_insert_queue :: "entry option list"
  db :: "string \<rightharpoonup> page"
  driver :: browser
  log :: "log_msg list"
  writer_started :: bool
  fetched :: "(string \<times> int) list"

definition logging :: "log_msg \<Rightarrow> state \<Rightarrow> state" where
  "logging m s = s\<lparr>log := log s @ [m]\<rparr>"

section \<open>Link resolution and classification\<close>

definition startswith :: "string \<Rightarrow> string \<Rightarrow> bool" where
  "startswith s p = (take (length p) s = p)"

text \<open>
  The database is the SQLite file that \<open>create_database\<close> opens, and \<open>links\<close> is a \<open>Text\<close>
  column: \<open>sqlite3\<close> binds a \<open>str\<close> to it and raises on a set or a list.
\<close>

definition binds :: "page \<Rightarrow> bool" where
  "binds p = (case links p of LinksStr t \<Rightarrow> True | LinksList xs \<Rightarrow> False | LinksSet xs \<Rightarrow> False)"

text \<open>
  \<open>Scraper.get_link\<close>. Everything happens inside \<open>try\<close>; an exception is logged and the
  list built so far is returned. The commit of a new row binds all its columns, the
  commit of an incremented depth binds the depth alone.
\<close>

definition get_link :: "config \<Rightarrow> string \<Rightarrow> state \<Rightarrow> string list \<times> state" where
  "get_link c href s =
     (case urlparse_netloc c href of
        None \<Rightarrow> ([], logging (ErrorParsing href) s)
      | Some netloc \<Rightarrow>
         (case urlparse_netloc c (initial_url c) of
            None \<Rightarrow> ([], logging (ErrorParsing href) s)
          | Some netloc0 \<Rightarrow>
             if netloc = netloc0 then
               (if query_fails c href then ([], logging (ErrorParsing href) s)
                else
                  (case db s href of
                     None \<Rightarrow>
                       (let p = \<lparr>url = href, source_url = current_url (driver s), depth = 0,
                                  title = Str [], links = LinksSet []\<rparr>
                        in if binds p \<and> \<not> commit_fails c p
                           then ([href], s\<lparr>db := (db s)(href \<mapsto> p)\<rparr>)
                           else ([href], logging (ErrorParsing href) s))
                   | Some p \<Rightarrow>
                       if depth p < max_depth c then
                         (let p' = p\<lparr>depth := depth p + 1\<rparr>
                          in if commit_fails c p' then ([href], logging (ErrorParsing href) s)
                             else ([href], s\<lparr>db := (db s)(href \<mapsto> p')\<rparr>))
                       else ([], s)))
             else ([], s)))"

text \<open>
  The rewriting of an href in the loop of \<open>Scraper.get_links\<close>: \<open>None\<close> when \<open>urljoin\<close>
  raises.
\<close>

definition resolve_href :: "config \<Rightarrow> string \<Rightarrow> string option" where
  "resolve_href c href =
     (if startswith href ''/'' then urljoin c (initial_url c) href
      else if \<not> startswith href ''http'' then urljoin c (initial_url c) href
      else Some href)"

text \<open>
  The loop of \<open>Scraper.get_links\<close> over \<open>soup.find_all("a")\<close>. The submitted \<open>get_link\<close>
  calls run on the pool in submission order, each to completion (the schedule of a pool
  with one worker); \<open>futs\<close> collects their results. An exception of \<open>urljoin\<close> leaves
  the loop; the calls submitted before it have run.
\<close>

fun get_links_loop ::
  "config \<Rightarrow> string option list \<Rightarrow> string list list \<Rightarrow> state \<Rightarrow> (exn + string list list) \<times> state"
where
  "get_links_loop c [] futs s = (Inr futs, s)"
| "get_links_loop c (None # as) futs s = get_links_loop c as futs s"
| "get_links_loop c (Some href # as) futs s =
     (if href = [] then get_links_loop c as futs s
      else
        (case resolve_href c href of
           None \<Rightarrow> (Inl ValueError, s)
         | Some href' \<Rightarrow>
             (case get_link c href' s of
                (ls, s') \<Rightarrow> get_links_loop c as (futs @ [ls]) s')))"

definition get_links :: "config \<Rightarrow> soup \<Rightarrow> string \<Rightarrow> state \<Rightarrow> (exn + string list) \<times> state" where
  "get_links c sp u s =
     (case get_links_loop c (anchors sp) [] s of
        (Inl e, s') \<Rightarrow> (Inl e, s')
      | (Inr futs, s') \<Rightarrow> (Inr (concat (as_completed c futs)), s'))"

section \<open>The traversal\<close>

definition py_isspace :: "char \<Rightarrow> bool" where
  "py_isspace ch =
     (let n = (of_char ch :: nat)
      in (9 \<le> n \<and> n \<le> 13) \<or> (28 \<le> n \<and> n \<le> 32) \<or> n = 133 \<or> n = 160)"

definition strip :: "string \<Rightarrow> string" where
  "strip t = rev (dropWhile py_isspace (rev (dropWhile py_isspace t)))"

definition save_to_db :: "entry \<Rightarrow> state \<Rightarrow> state" where
  "save_to_db result s = s\<lparr>db_insert_queue := db_insert_queue s @ [Some result]\<rparr>"

datatype outcome = Skipped | Failed | Completed | Raised exn

text \<open>
  Lines 152 to 176 of \<open>Scraper.scrape\<close>: the guards, the fetch, the extraction and the
  hand-over to the queue. The result is either the way the call ends there or the
  list \<open>links\<close> with which it goes on to the fan-out. When \<open>self.driver.get\<close> raises,
  the state of the driver is left as it was: nothing reads it before the next
  navigation.
\<close>

definition scrape_page :: "config \<Rightarrow> string \<Rightarrow> int \<Rightarrow> state \<Rightarrow> (outcome + string list) \<times> state" where
  "scrape_page c u d s =
     (if d > max_depth c then (Inl Skipped, s)
      else if u \<in> visited_urls s then (Inl Skipped, s)
      else
        (let s1 = s\<lparr>visited_urls := insert u (visited_urls s)\<rparr>;
             s2 = s1\<lparr>fetched := fetched s1 @ [(u, d)]\<rparr>
         in case driver_get c u of
              None \<Rightarrow> (Inl Failed, logging (ErrorScraping u) s2)
            | Some b \<Rightarrow>
               (let s3 = s2\<lparr>driver := b\<rparr>;
                    sp = page_source (driver s3)
                in case title_tag sp of
                     None \<Rightarrow> (Inl (Raised AttributeError), s3)
                   | Some None \<Rightarrow> (Inl (Raised AttributeError), s3)
                   | Some (Some t) \<Rightarrow>
                      (case get_links c sp u s3 of
                         (Inl e, s4) \<Rightarrow> (Inl (Raised e), s4)
                       | (Inr ls, s4) \<Rightarrow>
                          (Inr ls,
                           logging (InfoScraped u d (strip t))
                             (save_to_db (u, current_url (driver s4), d, strip t, LinksList ls) s4))))))"

text \<open>
  \<open>Scraper.scrape\<close>. The children are submitted to a pool and awaited; they run in
  submission order, each to completion. An exception raised in a child stays in its
  future, which is never asked for its result.
\<close>

function scrape :: "config \<Rightarrow> string \<Rightarrow> int \<Rightarrow> state \<Rightarrow> outcome \<times> state" where
  "scrape c u d s =
     (case scrape_page c u d s of
        (Inl out, s') \<Rightarrow> (out, s')
      | (Inr ls, s') \<Rightarrow>
          (Completed,
           fold (\<lambda>link st. snd (scrape c link (d + 1) st))
                (filter (\<lambda>link. d + 1 \<le> max_depth c) ls) s'))"
  by pat_completeness auto
termination
  by (relation "measure (\<lambda>(c, u, d, s). nat (max_depth c + 1 - d))") auto

declare scrape.simps [simp del]

section \<open>Serialisation of the links\<close>

text \<open>
  \<open>json\<close> works on Python strings in full: a \<open>py_str\<close> is the list of the code points of a
  \<open>str\<close>, each below \<open>0x110000\<close>; surrogate code points may occur in it, alone or in
  pairs. \<open>code_points\<close> gives the code points of a string of the traversal, \<open>chars\<close> goes
  back.
\<close>

type_synonym py_str = "nat list"

definition code_points :: "string \<Rightarrow> py_str" where
  "code_points t = map of_char t"

definition chars :: "py_str \<Rightarrow> string" where
  "chars t = map char_of t"

definition valid_str :: "py_str \<Rightarrow> bool" where
  "valid_str t = list_all (\<lambda>n. n < 0x110000) t"

definition high_surrogate :: "nat \<Rightarrow> bool" where
  "high_surrogate n = (0xD800 \<le> n \<and> n \<le> 0xDBFF)"

definition low_surrogate :: "nat \<Rightarrow> bool" where
  "low_surrogate n = (0xDC00 \<le> n \<and> n \<le> 0xDFFF)"

text \<open>No high surrogate of the string is followed at once by a low surrogate.\<close>

fun no_surrogate_pair :: "py_str \<Rightarrow> bool" where
  "no_surrogate_pair [] = True"
| "no_surrogate_pair [x] = True"
| "no_surrogate_pair (x # y # r) =
     (\<not> (high_surrogate x \<and> low_surrogate y) \<and> no_surrogate_pair (y # r))"

text \<open>
  \<open>SetEncoder.default\<close>: a set becomes \<open>list(obj)\<close>; for everything else the default of
  \<open>json.JSONEncoder\<close> raises \<open>TypeError\<close> (\<open>None\<close>).
\<close>

fun SetEncoder_default :: "'a links_val \<Rightarrow> 'a list option" where
  "SetEncoder_default (LinksSet xs) = Some xs"
| "SetEncoder_default (LinksList xs) = None"
| "SetEncoder_default (LinksStr t) = None"

text \<open>
  \<open>json.dumps\<close> of the standard library with its default arguments (\<open>ensure_ascii\<close>,
  separators \<open>", "\<close>), on strings and lists of strings: a code point other than the
  backslash and the quote between the space and the tilde stands for itself; the
  others are escaped, a code point from \<open>0x10000\<close> on as the pair of its surrogates.
\<close>

definition hex_digit :: "nat \<Rightarrow> nat" where
  "hex_digit n = of_char (''0123456789abcdef'' ! n)"

definition hex4 :: "nat \<Rightarrow> py_str" where
  "hex4 n = [hex_digit (n div 4096 mod 16), hex_digit (n div 256 mod 16),
             hex_digit (n div 16 mod 16), hex_digit (n mod 16)]"

definition escape :: "nat \<Rightarrow> py_str" where
  "escape n =
     (if n = 0x5C then [0x5C, 0x5C]
      else if n = 0x22 then [0x5C, 0x22]
      else if n = 8 then [0x5C, of_char CHR ''b'']
      else if n = 12 then [0x5C, of_char CHR ''f'']
      else if n = 10 then [0x5C, of_char CHR ''n'']
      else if n = 13 then [0x5C, of_char CHR ''r'']
      else if n = 9 then [0x5C, of_char CHR ''t'']
      else if 0x20 \<le> n \<and> n \<le> 0x7E then [n]
      else if n < 0x10000 then [0x5C, of_char CHR ''u''] @ hex4 n
      else
        (let v = n - 0x10000;
             s1 = 0xD800 + v div 1024 mod 1024;
             s2 = 0xDC00 + v mod 1024
         in [0x5C, of_char CHR ''u''] @ hex4 s1 @ [0x5C, of_char CHR ''u''] @ hex4 s2))"

definition encode_str :: "py_str \<Rightarrow> py_str" where
  "encode_str t = [0x22] @ concat (map escape t) @ [0x22]"

fun join_items :: "py_str list \<Rightarrow> py_str" where
  "join_items [] = []"
| "join_items [x] = x"
| "join_items (x # y # ys) = x @ code_points '', '' @ join_items (y # ys)"

definition dumps_list :: "py_str list \<Rightarrow> py_str" where
  "dumps_list xs = code_points ''['' @ join_items (map encode_str xs) @ code_points '']''"

text \<open>\<open>json.dumps(links, cls=SetEncoder)\<close>.\<close>

definition dumps :: "py_str links_val \<Rightarrow> exn + py_str" where
  "dumps v =
     (case v of
        LinksStr t \<Rightarrow> Inr (encode_str t)
      | LinksList xs \<Rightarrow> Inr (dumps_list xs)
      | LinksSet xs \<Rightarrow>
          (case SetEncoder_default v of
             None \<Rightarrow> Inl TypeError
           | Some ys \<Rightarrow> Inr (dumps_list ys)))"

text \<open>
  \<open>json.loads\<close> of the standard library, with the scanner of strings that CPython runs, on
  documents that are a list of strings. The result is \<open>None\<close> when \<open>json.loads\<close> raises and
  when the document is not a list of strings.
\<close>

definition json_ws :: "nat \<Rightarrow> bool" where
  "json_ws n = (n = 0x20 \<or> n = 0x09 \<or> n = 0x0A \<or> n = 0x0D)"

definition skip_ws :: "py_str \<Rightarrow> py_str" where
  "skip_ws t = dropWhile json_ws t"

definition hex_val :: "nat \<Rightarrow> nat option" where
  "hex_val n =
     (if 48 \<le> n \<and> n \<le> 57 then Some (n - 48)
      else if 97 \<le> n \<and> n \<le> 102 then Some (n - 87)
      else if 65 \<le> n \<and> n \<le> 70 then Some (n - 55)
      else None)"

definition hex4_val :: "nat \<Rightarrow> nat \<Rightarrow> nat \<Rightarrow> nat \<Rightarrow> nat option" where
  "hex4_val a b c d =
     (case (hex_val a, hex_val b, hex_val c, hex_val d) of
        (Some x, Some y, Some z, Some w) \<Rightarrow> Some (x * 4096 + y * 256 + z * 16 + w)
      | _ \<Rightarrow> None)"

text \<open>The value of the four hexadecimal digits at the head of the input.\<close>

definition hex4_at :: "py_str \<Rightarrow> nat option" where
  "hex4_at t = (case t of a # b # c # d # r \<Rightarrow> hex4_val a b c d | _ \<Rightarrow> None)"

definition unescape :: "nat \<Rightarrow> nat option" where
  "unescape e =
     (if e = 0x22 then Some 0x22
      else if e = 0x5C then Some 0x5C
      else if e = of_char CHR ''/'' then Some (of_char CHR ''/'')
      else if e = of_char CHR ''b'' then Some 0x08
      else if e = of_char CHR ''f'' then Some 0x0C
      else if e = of_char CHR ''n'' then Some 0x0A
      else if e = of_char CHR ''r'' then Some 0x0D
      else if e = of_char CHR ''t'' then Some 0x09
      else None)"

definition cons_result :: "nat \<Rightarrow> (py_str \<times> py_str) option \<Rightarrow> (py_str \<times> py_str) option" where
  "cons_result n r = (case r of None \<Rightarrow> None | Some (v, rest) \<Rightarrow> Some (n # v, rest))"

text \<open>
  The scanner of a string, entered after the opening quote: the decoded string and
  the input after the closing quote. A \<open>\\u\<close> escape of a high surrogate that is followed
  at once by a \<open>\\u\<close> escape of a low surrogate is decoded, with it, to one code point.
\<close>

function scanstring :: "py_str \<Rightarrow> (py_str \<times> py_str) option" where
  "scanstring [] = None"
| "scanstring (ch # cs) =
     (if ch = 0x22 then Some ([], cs)
      else if ch = 0x5C then
        (case cs of
           [] \<Rightarrow> None
         | e # cs' \<Rightarrow>
            if e = of_char CHR ''u'' then
              (case hex4_at cs' of
                 None \<Rightarrow> None
               | Some uni \<Rightarrow>
                   if high_surrogate uni \<and> take 2 (drop 4 cs') = [0x5C, of_char CHR ''u''] then
                     (case hex4_at (drop 6 cs') of
                        None \<Rightarrow> None
                      | Some uni2 \<Rightarrow>
                          if low_surrogate uni2
                          then cons_result (0x10000 + (uni - 0xD800) * 1024 + (uni2 - 0xDC00))
                                 (scanstring (drop 10 cs'))
                          else cons_result uni (scanstring (drop 4 cs')))
                   else cons_result uni (scanstring (drop 4 cs')))
            else
              (case unescape e of
                 None \<Rightarrow> None
               | Some x \<Rightarrow> cons_result x (scanstring cs')))
      else if ch < 0x20 then None
      else cons_result ch (scanstring cs))"
  by pat_completeness auto
termination
  by (relation "measure length") auto

declare scanstring.simps [simp del]

text \<open>The elements of a non-empty list, entered at the first character of an element.\<close>

function parse_elems :: "py_str \<Rightarrow> py_str list option" where
  "parse_elems r =
     (case r of
        [] \<Rightarrow> None
      | ch # r1 \<Rightarrow>
          if ch = 0x22 then
            (case scanstring r1 of
               None \<Rightarrow> None
             | Some (v, r2) \<Rightarrow>
                (case skip_ws r2 of
                   [] \<Rightarrow> None
                 | ch2 # r3 \<Rightarrow>
                     if ch2 = of_char CHR '']'' then (if skip_ws r3 = [] then Some [v] else None)
                     else if ch2 = of_char CHR '','' then
                       (case parse_elems (skip_ws r3) of
                          None \<Rightarrow> None
                        | Some vs \<Rightarrow> Some (v # vs))
                     else None))
          else None)"
  by pat_completeness auto
termination
proof (relation "measure length", goal_cases)
  case 1
  show ?case by simp
next
  case (2 r ch r1 x v r2 ch2 r3)
  have scan: "scanstring t = Some (w, t') \<Longrightarrow> length t' < length t" for t w t'
  proof (induction "length t" arbitrary: t w t' rule: less_induct)
    case less
    have ih: "scanstring X = Some (a, t') \<Longrightarrow> length X < length t \<Longrightarrow> length t' < length X"
      for X a
      using less.hyps [of X a t'] by simp
    show ?case
    proof (cases t)
      case Nil
      with less.prems show ?thesis by (simp add: scanstring.simps)
    next
      case (Cons ch cs)
      from less.prems show ?thesis
        unfolding Cons
        apply (subst (asm) scanstring.simps)
        apply (auto simp: cons_result_def Cons split: if_splits list.splits option.splits
                 dest!: ih)
        done
    qed
  qed
  have ws: "length (skip_ws t) \<le> length t" for t
    by (simp add: skip_ws_def length_dropWhile_le)
  from 2 have a: "length r2 < length r1"
    using scan by auto
  from 2 have "skip_ws r2 = ch2 # r3" by simp
  then have b: "length r3 < length r2"
    using ws [of r2] by simp
  from 2 a b ws [of r3] show ?case by simp
qed

declare parse_elems.simps [simp del]

definition loads :: "py_str \<Rightarrow> py_str list option" where
  "loads t =
     (case skip_ws t of
        [] \<Rightarrow> None
      | ch # r \<Rightarrow>
          if ch = of_char CHR ''['' then
            (case skip_ws r of
               [] \<Rightarrow> None
             | ch2 # r2 \<Rightarrow>
                 if ch2 = of_char CHR '']'' then (if skip_ws r2 = [] then Some [] else None)
                 else parse_elems (ch2 # r2))
          else None)"

text \<open>
  The same on the strings of the traversal, whose characters are code points below 256:
  what \<open>json.dumps\<close> writes is ASCII; \<open>json_loads\<close> is \<open>None\<close> also when a decoded string has a
  code point from 256 on.
\<close>

definition encode_basestring_ascii :: "string \<Rightarrow> string" where
  "encode_basestring_ascii t = chars (encode_str (code_points t))"

definition encode_list :: "string list \<Rightarrow> string" where
  "encode_list xs = chars (dumps_list (map code_points xs))"

definition json_dumps :: "string links_val \<Rightarrow> exn + string" where
  "json_dumps v =
     (case dumps (map_links_val code_points v) of
        Inl e \<Rightarrow> Inl e
      | Inr j \<Rightarrow> Inr (chars j))"

definition json_loads :: "string \<Rightarrow> string list option" where
  "json_loads t =
     (case loads (code_points t) of
        None \<Rightarrow> None
      | Some ys \<Rightarrow>
          if list_all (list_all (\<lambda>n. n < 256)) ys then Some (map chars ys) else None)"

section \<open>The writer\<close>

text \<open>\<open>codecs.encode(title, 'utf-8')\<close> on code points below 256.\<close>

definition utf8_char :: "char \<Rightarrow> string" where
  "utf8_char ch =
     (let n = (of_char ch :: nat)
      in if n < 128 then [ch] else [char_of (192 + n div 64), char_of (128 + n mod 64)])"

definition utf8_encode :: "string \<Rightarrow> string" where
  "utf8_encode t = concat (map utf8_char t)"

text \<open>
  The body of the loop of \<open>Scraper.run_db_inserts\<close> for an entry that is not the
  sentinel. \<open>session.merge\<close> reads the row of the key and \<open>session.commit\<close> writes the
  new row over it; an exception is logged and the session rolled back.
\<close>

definition write_entry :: "config \<Rightarrow> entry \<Rightarrow> state \<Rightarrow> state" where
  "write_entry c result s =
     (case result of
        (u, src, d, t, ls) \<Rightarrow>
          (let title_encoded = Bytes (utf8_encode t)
           in case (case ls of LinksStr x \<Rightarrow> Inr x | _ \<Rightarrow> json_dumps ls) of
                Inl e \<Rightarrow> logging (ErrorSaving u) s
              | Inr ser \<Rightarrow>
                  (let p = \<lparr>url = u, source_url = src, depth = d, title = title_encoded,
                             links = LinksStr ser\<rparr>
                   in if query_fails c u \<or> commit_fails c p then logging (ErrorSaving u) s
                      else s\<lparr>db := (db s)(u \<mapsto> p)\<rparr>)))"

datatype writer_end = Exited | Blocked

text \<open>
  \<open>Scraper.run_db_inserts\<close>: \<open>Blocked\<close> is the thread waiting in \<open>queue.get()\<close> on an empty
  queue to which nothing more is put.
\<close>

function run_db_inserts :: "config \<Rightarrow> state \<Rightarrow> writer_end \<times> state" where
  "run_db_inserts c s =
     (case db_insert_queue s of
        [] \<Rightarrow> (Blocked, s)
      | result # q \<Rightarrow>
          (case result of
             None \<Rightarrow> (Exited, s\<lparr>db_insert_queue := q\<rparr>)
           | Some e \<Rightarrow> run_db_inserts c (write_entry c e (s\<lparr>db_insert_queue := q\<rparr>))))"
  by pat_completeness auto
termination
  by (relation "measure (\<lambda>(c, s). length (db_insert_queue s))")
     (auto simp: write_entry_def logging_def Let_def split: prod.splits sum.splits)

declare run_db_inserts.simps [simp del]

text \<open>\<open>Scraper.cleanup\<close>: the sentinel is put on the queue.\<close>

definition cleanup :: "state \<Rightarrow> state" where
  "cleanup s = s\<lparr>db_insert_queue := db_insert_queue s @ [None]\<rparr>"

section \<open>Start and resume\<close>

text \<open>
  \<open>Scraper.resume_scraping\<close>. \<open>Scraper.__init__\<close> sets \<open>initial_url\<close>, \<open>max_depth\<close>,
  \<open>db_file\<close>, \<open>db_insert_queue\<close>, \<open>max_threads\<close>, \<open>visited_urls\<close>, \<open>connection_pool\<close>,
  \<open>service\<close> and \<open>driver\<close>, and nothing else in the class sets an attribute: the
  evaluation of \<open>self.url_queue\<close> at line 137 raises \<open>AttributeError\<close>, and lines 138 to
  149 are not reached.
\<close>

definition resume_scraping :: "config \<Rightarrow> state \<Rightarrow> exn option \<times> state" where
  "resume_scraping c s =
     (if query_fails c (initial_url c) then (Some StoreError, s)
      else
        (case db s (initial_url c) of
           None \<Rightarrow> (None, logging (ErrorNoData (initial_url c)) s)
         | Some last_page \<Rightarrow>
             if depth last_page \<ge> max_depth c
             then (None, logging (InfoAllScraped (initial_url c)) s)
             else (Some AttributeError, s)))"

text \<open>
  \<open>Scraper.start_scraping\<close>. \<open>url\<close> is the primary key, so the count is 0 or 1. The
  insert thread is started when the traversal has returned.
\<close>

definition start_scraping :: "config \<Rightarrow> state \<Rightarrow> exn option \<times> state" where
  "start_scraping c s =
     (if query_fails c (initial_url c) then (Some StoreError, s)
      else
        (let count = (case db s (initial_url c) of None \<Rightarrow> 0 | Some p \<Rightarrow> Suc 0);
             r = (if count > 0
                  then resume_scraping c (logging (InfoResuming count (initial_url c)) s)
                  else (case scrape c (initial_url c) 0
                               (logging (InfoStart (initial_url c) (max_depth c)) s) of
                          (Raised e, s') \<Rightarrow> (Some e, s')
                        | (out, s') \<Rightarrow> (None, s')))
         in case r of
              (Some e, s') \<Rightarrow> (Some e, s')
            | (None, s') \<Rightarrow> (None, s'\<lparr>writer_started := True\<rparr>)))"

text \<open>
  \<open>main\<close> after the construction of the scraper: the traversal, \<open>cleanup\<close>, and the
  insert thread, which finds on the queue what the traversal and \<open>cleanup\<close> have put.
\<close>

definition main :: "config \<Rightarrow> state \<Rightarrow> (exn + writer_end) \<times> state" where
  "main c s =
     (case start_scraping c s of
        (Some e, s') \<Rightarrow> (Inl e, s')
      | (None, s') \<Rightarrow>
          (case run_db_inserts c (cleanup s') of
             (w, s'') \<Rightarrow> (Inr w, s'')))"

text \<open>
  The state after \<open>Scraper.__init__\<close>: \<open>pages\<close> is the table found in the database
  file, \<open>b\<close> the state of the freshly started driver.
\<close>

definition init_state :: "(string \<rightharpoonup> page) \<Rightarrow> browser \<Rightarrow> state" where
  "init_state pages b =
     \<lparr>visited_urls = {}, db_insert_queue = [], db = pages, driver = b, log = [],
      writer_started = False, fetched = []\<rparr>"

section \<open>Relations between the states of a run\<close>

text \<open>
  The trace of \<open>s'\<close> is the trace of \<open>s\<close> followed by fetches whose depth does not exceed
  \<open>max_depth\<close>.
\<close>

definition fetch_ext :: "config \<Rightarrow> state \<Rightarrow> state \<Rightarrow> bool" where
  "fetch_ext c s s' =
     (\<exists>new. fetched s' = fetched s @ new \<and> (\<forall>e\<in>set new. snd e \<le> max_depth c))"

text \<open>No URL occurs twice in the trace, and every URL of the trace has been visited.\<close>

definition fetched_once :: "state \<Rightarrow> bool" where
  "fetched_once s =
     (distinct (map fst (fetched s)) \<and> fst ` set (fetched s) \<subseteq> visited_urls s)"

text \<open>
  The table of \<open>s'\<close> differs from the table of \<open>s\<close> by the writes of \<open>get_link\<close> alone: a
  row of \<open>s\<close> is still there, with at most its depth changed, and a row that \<open>s\<close> does not
  have is a placeholder, with the empty title and the empty set of links.
\<close>

definition same_but_depth :: "page \<Rightarrow> page \<Rightarrow> bool" where
  "same_but_depth p0 p =
     (url p = url p0 \<and> source_url p = source_url p0 \<and> title p = title p0 \<and> links p = links p0)"

definition link_row :: "page option \<Rightarrow> page option \<Rightarrow> bool" where
  "link_row old new =
     (case old of
        Some p0 \<Rightarrow> (case new of None \<Rightarrow> False | Some p \<Rightarrow> same_but_depth p0 p)
      | None \<Rightarrow> (case new of None \<Rightarrow> True | Some p \<Rightarrow> title p = Str [] \<and> links p = LinksSet []))"

definition only_link_rows :: "state \<Rightarrow> state \<Rightarrow> bool" where
  "only_link_rows s s' = (\<forall>u. link_row (db s u) (db s' u))"

text \<open>
  The queue of \<open>s'\<close> is the queue of \<open>s\<close> followed by entries, none of them the sentinel,
  for URLs that were not visited in \<open>s\<close>; what was visited in \<open>s\<close> is visited in \<open>s'\<close>.
\<close>

definition queue_ext :: "state \<Rightarrow> state \<Rightarrow> bool" where
  "queue_ext s s' =
     (visited_urls s \<subseteq> visited_urls s' \<and>
      (\<exists>new. db_insert_queue s' = db_insert_queue s @ map Some new \<and>
             (\<forall>e\<in>set new. fst e \<notin> visited_urls s)))"

section \<open>An example site\<close>

text \<open>
  The network location that \<open>urllib.parse.urlsplit\<close> finds in a URL of printable ASCII
  characters without brackets: a scheme (a letter, then scheme characters up to the
  first colon) is cut off, and what follows \<open>//\<close> up to the first of \<open>/\<close>, \<open>?\<close>, \<open>#\<close> is the
  network location.
\<close>

definition ascii_letters :: string where
  "ascii_letters = ''abcdefghijklmnopqrstuvwxyzABCDEFGHIJKLMNOPQRSTUVWXYZ''"

definition scheme_chars :: string where
  "scheme_chars = ascii_letters @ ''0123456789+-.''"

definition urlsplit_netloc :: "string \<Rightarrow> string" where
  "urlsplit_netloc u =
     (let i = length (takeWhile (\<lambda>ch. ch \<noteq> CHR '':'') u);
          rest = (if i < length u \<and> 0 < i \<and> hd u \<in> set ascii_letters
                     \<and> list_all (\<lambda>ch. ch \<in> set scheme_chars) (take i u)
                  then drop (i + 1) u else u)
      in if take 2 rest = ''//'' then takeWhile (\<lambda>ch. ch \<notin> set ''/?#'') (drop 2 rest) else [])"

definition site_seed :: string where
  "site_seed = ''https://site.test/''"

text \<open>
  \<open>urljoin\<close> on the seed and the hrefs of the example site that reach it; it is not
  called on other arguments there.
\<close>

definition site_urljoin :: "string \<Rightarrow> string \<Rightarrow> string option" where
  "site_urljoin base h =
     (if base = site_seed \<and> h \<in> set [''/'', ''/a'', ''/a/b'', ''/notitle'']
      then Some (''https://site.test'' @ h) else None)"

text \<open>
  The site: the seed page links to \<open>/a\<close>, to another domain, to the relative
  \<open>http-faq.html\<close> and to \<open>/notitle\<close>, and has an anchor without href and one with an
  empty href; \<open>/a\<close> links back to the seed; \<open>/notitle\<close> has no title element; every
  other navigation fails.
\<close>

definition site_web :: "string \<Rightarrow> browser option" where
  "site_web u =
     (if u = ''https://site.test/'' then
        Some \<lparr>current_url = u,
              page_source = \<lparr>title_tag = Some (Some '' Home ''),
                anchors = [Some ''/a'', Some ''https://other.example/x'', Some ''http-faq.html'',
                           None, Some [], Some ''/notitle'']\<rparr>\<rparr>
      else if u = ''https://site.test/a'' then
        Some \<lparr>current_url = u,
              page_source = \<lparr>title_tag = Some (Some ''A''), anchors = [Some ''/'']\<rparr>\<rparr>
      else if u = ''https://site.test/notitle'' then
        Some \<lparr>current_url = u, page_source = \<lparr>title_tag = None, anchors = []\<rparr>\<rparr>
      else None)"

definition site_cfg :: "int \<Rightarrow> config" where
  "site_cfg md =
     \<lparr>initial_url = site_seed, max_depth = md, max_threads = 1, driver_get = site_web,
      urljoin = site_urljoin, urlparse_netloc = (\<lambda>u. Some (urlsplit_netloc u)),
      query_fails = (\<lambda>u. False), commit_fails = (\<lambda>p. False), as_completed = (\<lambda>futs. futs)\<rparr>"

definition blank :: browser where
  "blank = \<lparr>current_url = ''data:,'', page_source = \<lparr>title_tag = None, anchors = []\<rparr>\<rparr>"

text \<open>A site of one page without links.\<close>

definition solo_web :: "string \<Rightarrow> browser option" where
  "solo_web u =
     (if u = ''https://site.test/'' then
        Some \<lparr>current_url = u, page_source = \<lparr>title_tag = Some (Some ''Home''), anchors = []\<rparr>\<rparr>
      else None)"

definition solo_cfg :: "int \<Rightarrow> config" where
  "solo_cfg md = (site_cfg md)\<lparr>driver_get := solo_web\<rparr>"

definition solo_row :: page where
  "solo_row = \<lparr>url = ''https://site.test/'', source_url = ''https://site.test/'', depth = 0,
                title = Bytes ''Home'', links = LinksStr ''[]''\<rparr>"

text \<open>The state in which \<open>start_scraping\<close> leaves a fresh scraper on that site.\<close>

definition solo_after :: "int \<Rightarrow> state" where
  "solo_after md =
     \<lparr>visited_urls = {''https://site.test/''},
      db_insert_queue = [Some (''https://site.test/'', ''https://site.test/'', 0, ''Home'', LinksList [])],
      db = Map.empty,
      driver = \<lparr>current_url = ''https://site.test/'',
                 page_source = \<lparr>title_tag = Some (Some ''Home''), anchors = []\<rparr>\<rparr>,
      log = [InfoStart ''https://site.test/'' md, InfoScraped ''https://site.test/'' 0 ''Home''],
      writer_started = True, fetched = [(''https://site.test/'', 0)]\<rparr>"


text \<open>A queue entry for \<open>/a\<close> and the row the writer makes of it.\<close>

definition site_entry :: entry where
  "site_entry = (''https://site.test/a'', ''https://site.test/a'', 1, ''A'',
                 LinksList [''https://site.test/''])"

definition site_row :: page where
  "site_row = \<lparr>url = ''https://site.test/a'', source_url = ''https://site.test/a'', depth = 1,
                title = Bytes (utf8_encode ''A''),
                links = LinksStr (encode_list [''https://site.test/''])\<rparr>"

section \<open>What the steps of the traversal leave unchanged\<close>

lemma get_link_frame:
  "get_link c h s = (ls, s') \<Longrightarrow>
     fetched s' = fetched s \<and> visited_urls s' = visited_urls s \<and>
     db_insert_queue s' = db_insert_queue s \<and> driver s' = driver s \<and>
     writer_started s' = writer_started s"
  by (auto simp: get_link_def logging_def Let_def split: option.splits if_splits)

lemma get_links_loop_frame:
  "get_links_loop c as futs s = (r, s') \<Longrightarrow>
     fetched s' = fetched s \<and> visited_urls s' = visited_urls s \<and>
     db_insert_queue s' = db_insert_queue s \<and> driver s' = driver s \<and>
     writer_started s' = writer_started s"
proof (induction c as futs s rule: get_links_loop.induct)
  case (1 c futs s)
  then show ?case by simp
next
  case (2 c as futs s)
  then show ?case by simp
next
  case (3 c href as futs s)
  show ?case
  proof (cases "href = []")
    case True
    with 3 show ?thesis by simp
  next
    case False
    note ne = this
    show ?thesis
    proof (cases "resolve_href c href")
      case None
      with 3 ne show ?thesis by simp
    next
      case (Some h)
      obtain ls s1 where gl: "get_link c h s = (ls, s1)" by (cases "get_link c h s")
      from 3 ne Some gl get_link_frame[OF gl] show ?thesis by simp
    qed
  qed
qed

lemma get_links_frame:
  "get_links c sp u s = (r, s') \<Longrightarrow>
     fetched s' = fetched s \<and> visited_urls s' = visited_urls s \<and>
     db_insert_queue s' = db_insert_queue s \<and> driver s' = driver s \<and>
     writer_started s' = writer_started s"
  unfolding get_links_def
  by (auto split: prod.splits sum.splits dest: get_links_loop_frame)

section \<open>Relations kept by the traversal\<close>

lemma fold_rel:
  assumes refl: "\<And>s. R s s" and trans: "\<And>s t r. R s t \<Longrightarrow> R t r \<Longrightarrow> R s r"
    and step: "\<And>x s. x \<in> set xs \<Longrightarrow> R s (f x s)"
  shows "R s (fold f xs s)"
  using step
proof (induction xs arbitrary: s)
  case Nil
  show ?case by (simp add: refl)
next
  case (Cons x xs)
  have a: "R s (f x s)" using Cons.prems by simp
  have b: "R (f x s) (fold f xs (f x s))" using Cons.IH Cons.prems by simp
  from trans [OF a b] show ?case by simp
qed

lemma scrape_rel:
  assumes refl: "\<And>s. R s s" and trans: "\<And>s t r. R s t \<Longrightarrow> R t r \<Longrightarrow> R s r"
  shows "(\<And>u d s. R s (snd (scrape_page c u d s))) \<Longrightarrow> R s (snd (scrape c u d s))"
proof (induction c u d s rule: scrape.induct)
  case (1 c u d s)
  obtain r s' where sp: "scrape_page c u d s = (r, s')"
    by (cases "scrape_page c u d s")
  have st: "R s s'"
    using "1.prems" [of s u d] sp by simp
  show ?case
  proof (cases r)
    case (Inl out)
    with sp st show ?thesis by (simp add: scrape.simps)
  next
    case (Inr ls)
    have "R s' (fold (\<lambda>link st. snd (scrape c link (d + 1) st))
                 (filter (\<lambda>link. d + 1 \<le> max_depth c) ls) s')"
    proof (rule fold_rel [of R, OF refl trans])
      fix x st
      assume "x \<in> set (filter (\<lambda>link. d + 1 \<le> max_depth c) ls)"
      then show "R st (snd (scrape c x (d + 1) st))"
        using "1.IH" [OF sp [symmetric] Inr] "1.prems" by simp
    qed
    with trans [OF st] sp Inr show ?thesis by (simp add: scrape.simps)
  qed
qed

lemma scrape_page_skip:
  "max_depth c < d \<or> u \<in> visited_urls s \<Longrightarrow> scrape_page c u d s = (Inl Skipped, s)"
  by (auto simp: scrape_page_def)

lemma scrape_page_frame:
  assumes sp: "scrape_page c u d s = (r, s')" and go: "\<not> (max_depth c < d \<or> u \<in> visited_urls s)"
  shows "visited_urls s' = insert u (visited_urls s) \<and> fetched s' = fetched s @ [(u, d)] \<and>
         writer_started s' = writer_started s \<and>
         (case r of
            Inl out \<Rightarrow> out \<noteq> Skipped \<and> db_insert_queue s' = db_insert_queue s
          | Inr ls \<Rightarrow> \<exists>src t. db_insert_queue s' = db_insert_queue s @ [Some (u, src, d, t, LinksList ls)])"
proof (cases "driver_get c u")
  case None
  with sp go show ?thesis
    by (auto simp: scrape_page_def Let_def logging_def)
next
  case (Some b)
  define s3 where "s3 = s\<lparr>visited_urls := insert u (visited_urls s),
                         fetched := fetched s @ [(u, d)], driver := b\<rparr>"
  show ?thesis
  proof (cases "title_tag (page_source b)")
    case None
    with sp go Some show ?thesis
      by (auto simp: scrape_page_def Let_def)
  next
    case outer: (Some tt)
    show ?thesis
    proof (cases tt)
      case None
      with sp go Some outer show ?thesis
        by (auto simp: scrape_page_def Let_def)
    next
      case inner: (Some t)
      obtain r4 s4 where gl: "get_links c (page_source b) u s3 = (r4, s4)"
        by (cases "get_links c (page_source b) u s3")
      note fr = get_links_frame [OF gl]
      show ?thesis
      proof (cases r4)
        case (Inl e)
        with sp go Some outer inner gl fr show ?thesis
          by (auto simp: scrape_page_def Let_def s3_def)
      next
        case (Inr ls)
        with sp go Some outer inner gl have eq:
          "r = Inr ls \<and> s' = logging (InfoScraped u d (strip t))
             (save_to_db (u, current_url (driver s4), d, strip t, LinksList ls) s4)"
          by (auto simp: scrape_page_def Let_def s3_def)
        with fr show ?thesis
          by (simp add: s3_def logging_def save_to_db_def)
      qed
    qed
  qed
qed


lemma scrape_skip:
  "max_depth c < d \<or> u \<in> visited_urls s \<Longrightarrow> scrape c u d s = (Skipped, s)"
  by (subst scrape.simps) (simp add: scrape_page_skip)

lemma fetch_ext_refl: "fetch_ext c s s"
  by (simp add: fetch_ext_def)

lemma fetch_ext_trans:
  assumes "fetch_ext c s t" and "fetch_ext c t r"
  shows "fetch_ext c s r"
proof -
  from assms obtain n1 n2 where
    a: "fetched t = fetched s @ n1" "\<forall>e\<in>set n1. snd e \<le> max_depth c" and
    b: "fetched r = fetched t @ n2" "\<forall>e\<in>set n2. snd e \<le> max_depth c"
    unfolding fetch_ext_def by blast
  from a b have "fetched r = fetched s @ (n1 @ n2) \<and> (\<forall>e\<in>set (n1 @ n2). snd e \<le> max_depth c)"
    by auto
  then show ?thesis unfolding fetch_ext_def by blast
qed

lemma scrape_page_fetch_ext: "fetch_ext c s (snd (scrape_page c u d s))"
proof (cases "max_depth c < d \<or> u \<in> visited_urls s")
  case True
  then show ?thesis by (simp add: scrape_page_skip fetch_ext_refl)
next
  case False
  obtain r s' where sp: "scrape_page c u d s = (r, s')" by (cases "scrape_page c u d s")
  from scrape_page_frame [OF sp False] have "fetched s' = fetched s @ [(u, d)]" by simp
  with False sp show ?thesis by (simp add: fetch_ext_def)
qed

lemma scrape_fetch_ext: "fetch_ext c s (snd (scrape c u d s))"
proof (rule scrape_rel [of "fetch_ext c"])
  show "fetch_ext c s s" for s by (rule fetch_ext_refl)
  show "fetch_ext c s t \<Longrightarrow> fetch_ext c t r \<Longrightarrow> fetch_ext c s r" for s t r
    by (rule fetch_ext_trans)
  show "fetch_ext c s (snd (scrape_page c u d s))" for u d s
    by (rule scrape_page_fetch_ext)
qed

section \<open>Decoding what the encoder writes\<close>

lemma hex_val_hex_digit: "n < 16 \<Longrightarrow> hex_val (hex_digit n) = Some n"
proof -
  assume "n < 16"
  then consider "n = 0" | "n = 1" | "n = 2" | "n = 3" | "n = 4" | "n = 5" | "n = 6" | "n = 7"
    | "n = 8" | "n = 9" | "n = 10" | "n = 11" | "n = 12" | "n = 13" | "n = 14" | "n = 15"
    by atomize_elim arith
  then show ?thesis
    by cases (simp_all add: hex_digit_def hex_val_def)
qed

lemma hex_digit_less: "hex_digit n < 256"
  by (simp add: hex_digit_def)

lemma hex4_digits:
  fixes n :: nat
  assumes "n < 65536"
  shows "n div 4096 mod 16 * 4096 + n div 256 mod 16 * 256 + n div 16 mod 16 * 16 + n mod 16 = n"
proof -
  define q1 q2 q3 where "q1 = n div 16" and "q2 = n div 256" and "q3 = n div 4096"
  have e0: "n = q1 * 16 + n mod 16" by (simp add: q1_def)
  have "q1 div 16 = q2" by (simp add: q1_def q2_def div_mult2_eq [symmetric])
  then have e1: "q1 = q2 * 16 + q1 mod 16" by (metis div_mult_mod_eq)
  have "q2 div 16 = q3" by (simp add: q2_def q3_def div_mult2_eq [symmetric])
  then have e2: "q2 = q3 * 16 + q2 mod 16" by (metis div_mult_mod_eq)
  have "q3 < 16" using assms unfolding q3_def by (simp add: less_mult_imp_div_less)
  then have e3: "q3 mod 16 = q3" by simp
  have "q3 mod 16 * 4096 + q2 mod 16 * 256 + q1 mod 16 * 16 + n mod 16 = n"
    using e0 e1 e2 e3 by linarith
  then show ?thesis by (simp only: q1_def q2_def q3_def)
qed

lemma hex4_at_hex4:
  assumes "n < 65536"
  shows "hex4_at (hex4 n @ tail) = Some n"
proof -
  have d: "n div 4096 mod 16 < 16" "n div 256 mod 16 < 16" "n div 16 mod 16 < 16" "n mod 16 < 16"
    by simp_all
  have "hex4_at (hex4 n @ tail) =
      Some (n div 4096 mod 16 * 4096 + n div 256 mod 16 * 256 + n div 16 mod 16 * 16 + n mod 16)"
    unfolding hex4_at_def hex4_def hex4_val_def
    by (simp only: append.simps list.case hex_val_hex_digit [OF d(1)] hex_val_hex_digit [OF d(2)]
          hex_val_hex_digit [OF d(3)] hex_val_hex_digit [OF d(4)] prod.case option.case)
  then show ?thesis by (simp only: hex4_digits [OF assms])
qed

lemma length_hex4: "length (hex4 n) = 4"
  by (simp add: hex4_def)

lemma drop_hex4: "drop 4 (hex4 n @ tail) = tail"
  by (simp add: hex4_def)

text \<open>The surrogates of a code point from \<open>0x10000\<close> on, and the code point back.\<close>

lemma surrogates:
  fixes n :: nat
  assumes "0x10000 \<le> n" and "n < 0x110000"
  shows "high_surrogate (0xD800 + (n - 0x10000) div 1024 mod 1024)"
    and "low_surrogate (0xDC00 + (n - 0x10000) mod 1024)"
    and "0xD800 + (n - 0x10000) div 1024 mod 1024 < 65536"
    and "0xDC00 + (n - 0x10000) mod 1024 < 65536"
    and "0x10000 + (0xD800 + (n - 0x10000) div 1024 mod 1024 - 0xD800) * 1024 +
           (0xDC00 + (n - 0x10000) mod 1024 - 0xDC00) = n"
proof -
  define v where "v = n - 0x10000"
  define q r where "q = v div 1024" and "r = v mod 1024"
  have v: "v < 1024 * 1024" "n = 0x10000 + v" using assms by (simp_all add: v_def)
  have q: "q < 1024" using v(1) unfolding q_def by (simp add: less_mult_imp_div_less)
  then have qm: "q mod 1024 = q" by simp
  have r: "r < 1024" by (simp add: r_def)
  have vqr: "v = q * 1024 + r" by (simp add: q_def r_def)
  have 1: "high_surrogate (0xD800 + q mod 1024)"
    using q qm by (simp add: high_surrogate_def)
  have 2: "low_surrogate (0xDC00 + r)" using r by (simp add: low_surrogate_def)
  have 3: "0xD800 + q mod 1024 < 65536" using q qm by simp
  have 4: "0xDC00 + r < 65536" using r by simp
  have 5: "0x10000 + (0xD800 + q mod 1024 - 0xD800) * 1024 + (0xDC00 + r - 0xDC00) = n"
    using qm vqr v(2) by simp
  from 1 show "high_surrogate (0xD800 + (n - 0x10000) div 1024 mod 1024)"
    by (simp only: q_def v_def)
  from 2 show "low_surrogate (0xDC00 + (n - 0x10000) mod 1024)"
    by (simp only: r_def v_def)
  from 3 show "0xD800 + (n - 0x10000) div 1024 mod 1024 < 65536"
    by (simp only: q_def v_def)
  from 4 show "0xDC00 + (n - 0x10000) mod 1024 < 65536"
    by (simp only: r_def v_def)
  from 5 show "0x10000 + (0xD800 + (n - 0x10000) div 1024 mod 1024 - 0xD800) * 1024 +
           (0xDC00 + (n - 0x10000) mod 1024 - 0xDC00) = n"
    by (simp only: q_def r_def v_def)
qed

lemma high_surrogate_bmp: "high_surrogate n \<Longrightarrow> n < 65536"
  by (simp add: high_surrogate_def)

lemma high_not_low: "high_surrogate n \<Longrightarrow> \<not> low_surrogate n"
  by (simp add: high_surrogate_def low_surrogate_def)

lemma escape_high: "high_surrogate n \<Longrightarrow> escape n = [0x5C, of_char CHR ''u''] @ hex4 n"
  by (simp add: escape_def high_surrogate_def)

lemma scanstring_u:
  assumes "n < 65536"
    and "\<not> high_surrogate n \<or> take 2 tail \<noteq> [0x5C, of_char CHR ''u''] \<or>
         (\<exists>u2. hex4_at (drop 2 tail) = Some u2 \<and> \<not> low_surrogate u2)"
  shows "scanstring ([0x5C, of_char CHR ''u''] @ hex4 n @ tail) = cons_result n (scanstring tail)"
proof -
  have "scanstring (0x5C # 117 # hex4 n @ tail) = cons_result n (scanstring tail)"
    using assms(2)
    by (subst scanstring.simps)
       (auto simp: hex4_at_hex4 [OF assms(1)] drop_hex4 length_hex4)
  then show ?thesis by simp
qed


lemma escape_cases:
  "(n = 0x5C \<or> n = 0x22 \<or> n = 8 \<or> n = 12 \<or> n = 10 \<or> n = 13 \<or> n = 9) \<or>
   (0x20 \<le> n \<and> n \<le> 0x7E \<and> n \<noteq> 0x5C \<and> n \<noteq> 0x22) \<or>
   (n < 0x10000 \<and> escape n = [0x5C, of_char CHR ''u''] @ hex4 n) \<or>
   0x10000 \<le> n"
  by (auto simp: escape_def)

lemma escape_short:
  assumes "n = 0x5C \<or> n = 0x22 \<or> n = 8 \<or> n = 12 \<or> n = 10 \<or> n = 13 \<or> n = 9"
  shows "\<exists>e. escape n = [0x5C, e] \<and> unescape e = Some n \<and> e \<noteq> of_char CHR ''u''"
  using assms by (elim disjE) (simp_all add: escape_def unescape_def)

lemma escape_plain:
  "0x20 \<le> n \<Longrightarrow> n \<le> 0x7E \<Longrightarrow> n \<noteq> 0x5C \<Longrightarrow> n \<noteq> 0x22 \<Longrightarrow> escape n = [n]"
  by (simp add: escape_def)

lemma scanstring_escape_low:
  assumes "n < 0x10000"
    and "\<not> high_surrogate n \<or> take 2 tail \<noteq> [0x5C, of_char CHR ''u''] \<or>
         (\<exists>u2. hex4_at (drop 2 tail) = Some u2 \<and> \<not> low_surrogate u2)"
  shows "scanstring (escape n @ tail) = cons_result n (scanstring tail)"
proof -
  consider (short) "n = 0x5C \<or> n = 0x22 \<or> n = 8 \<or> n = 12 \<or> n = 10 \<or> n = 13 \<or> n = 9"
    | (plain) "0x20 \<le> n" "n \<le> 0x7E" "n \<noteq> 0x5C" "n \<noteq> 0x22"
    | (uni) "escape n = [0x5C, of_char CHR ''u''] @ hex4 n"
    using escape_cases [of n] assms(1) by fastforce
  then show ?thesis
  proof cases
    case short
    from escape_short [OF this] obtain e
      where e: "escape n = [0x5C, e]" "unescape e = Some n" "e \<noteq> of_char CHR ''u''"
      by blast
    then show ?thesis
      by (simp add: scanstring.simps(2) [of "0x5C" "e # tail"])
  next
    case plain
    then show ?thesis
      by (simp add: escape_plain scanstring.simps(2) [of n tail])
  next
    case uni
    have "n < 65536" using assms(1) by simp
    from scanstring_u [OF this assms(2)] uni show ?thesis by simp
  qed
qed

lemma scanstring_escape_pair:
  assumes "0x10000 \<le> n" and "n < 0x110000"
  shows "scanstring (escape n @ tail) = cons_result n (scanstring tail)"
proof -
  define s1 where "s1 = 0xD800 + (n - 0x10000) div 1024 mod 1024"
  define s2 where "s2 = 0xDC00 + (n - 0x10000) mod 1024"
  note sg = surrogates [OF assms, folded s1_def s2_def]
  have e: "escape n @ tail = 0x5C # 117 # hex4 s1 @ 0x5C # 117 # hex4 s2 @ tail"
    using assms(1) by (simp add: escape_def Let_def s1_def s2_def)
  have a: "hex4_at (hex4 s1 @ 0x5C # 117 # hex4 s2 @ tail) = Some s1"
    by (rule hex4_at_hex4 [OF sg(3)])
  have b: "take 2 (drop 4 (hex4 s1 @ 0x5C # 117 # hex4 s2 @ tail)) = [0x5C, 117]"
    by (simp add: length_hex4)
  have c: "drop 6 (hex4 s1 @ 0x5C # 117 # hex4 s2 @ tail) = hex4 s2 @ tail"
    by (simp add: length_hex4)
  have d: "drop 10 (hex4 s1 @ 0x5C # 117 # hex4 s2 @ tail) = tail"
    by (simp add: length_hex4)
  have "scanstring (0x5C # 117 # hex4 s1 @ 0x5C # 117 # hex4 s2 @ tail) =
      cons_result (0x10000 + (s1 - 0xD800) * 1024 + (s2 - 0xDC00)) (scanstring tail)"
    by (subst scanstring.simps)
       (simp add: a length_hex4 hex4_at_hex4 [OF sg(4)] sg(1) sg(2))
  with e sg(5) show ?thesis by simp
qed

lemma escape_no_join:
  assumes "y < 0x110000" and "\<not> low_surrogate y"
  shows "take 2 (escape y @ rest) \<noteq> [0x5C, of_char CHR ''u''] \<or>
         (\<exists>u2. hex4_at (drop 2 (escape y @ rest)) = Some u2 \<and> \<not> low_surrogate u2)"
proof -
  consider (short) "y = 0x5C \<or> y = 0x22 \<or> y = 8 \<or> y = 12 \<or> y = 10 \<or> y = 13 \<or> y = 9"
    | (plain) "0x20 \<le> y" "y \<le> 0x7E" "y \<noteq> 0x5C" "y \<noteq> 0x22"
    | (uni) "y < 0x10000" "escape y = [0x5C, of_char CHR ''u''] @ hex4 y"
    | (pair) "0x10000 \<le> y"
    using escape_cases [of y] by fastforce
  then show ?thesis
  proof cases
    case short
    from escape_short [OF this] obtain e
      where e: "escape y = [0x5C, e]" "e \<noteq> of_char CHR ''u''"
      by blast
    then show ?thesis by simp
  next
    case plain
    then show ?thesis by (simp add: escape_plain)
  next
    case uni
    have "hex4_at (drop 2 (escape y @ rest)) = Some y"
      using hex4_at_hex4 [of y rest] uni by simp
    with assms(2) show ?thesis by simp
  next
    case pair
    define s1 where "s1 = 0xD800 + (y - 0x10000) div 1024 mod 1024"
    define s2 where "s2 = 0xDC00 + (y - 0x10000) mod 1024"
    note sg = surrogates [OF pair assms(1), folded s1_def s2_def]
    have e: "escape y @ rest = 0x5C # 117 # hex4 s1 @ 0x5C # 117 # hex4 s2 @ rest"
      using pair by (simp add: escape_def Let_def s1_def s2_def)
    have "hex4_at (drop 2 (escape y @ rest)) = Some s1"
      unfolding e using hex4_at_hex4 [OF sg(3)] by simp
    with high_not_low [OF sg(1)] show ?thesis by simp
  qed
qed

lemma no_surrogate_pair_tail: "no_surrogate_pair (x # t) \<Longrightarrow> no_surrogate_pair t"
  by (cases t) simp_all

text \<open>The scanner reads back every string in which no high surrogate meets a low one.\<close>

lemma scanstring_body:
  assumes "valid_str t" and "no_surrogate_pair t"
  shows "scanstring (concat (map escape t) @ 0x22 # rest) = Some (t, rest)"
  using assms
proof (induction t)
  case Nil
  show ?case by (simp add: scanstring.simps)
next
  case (Cons x t)
  let ?tail = "concat (map escape t) @ 0x22 # rest"
  from Cons.prems have x: "x < 0x110000" and vt: "valid_str t"
    by (simp_all add: valid_str_def)
  from Cons.prems have nt: "no_surrogate_pair t" by (blast dest: no_surrogate_pair_tail)
  have step: "scanstring (escape x @ ?tail) = cons_result x (scanstring ?tail)"
  proof (cases "x < 0x10000")
    case False
    then show ?thesis using x by (simp add: scanstring_escape_pair)
  next
    case low: True
    have "\<not> high_surrogate x \<or> take 2 ?tail \<noteq> [0x5C, of_char CHR ''u''] \<or>
         (\<exists>u2. hex4_at (drop 2 ?tail) = Some u2 \<and> \<not> low_surrogate u2)"
    proof (cases "high_surrogate x")
      case False
      then show ?thesis by simp
    next
      case True
      show ?thesis
      proof (cases t)
        case Nil
        then show ?thesis by simp
      next
        case (Cons y t')
        with True Cons.prems have "\<not> low_surrogate y" "y < 0x110000"
          by (simp_all add: valid_str_def)
        from escape_no_join [OF this(2) this(1), of "concat (map escape t') @ 0x22 # rest"]
        show ?thesis by (simp add: Cons)
      qed
    qed
    from scanstring_escape_low [OF low this] show ?thesis .
  qed
  have "scanstring (concat (map escape (x # t)) @ 0x22 # rest) = scanstring (escape x @ ?tail)"
    by simp
  also note step
  finally show ?case using Cons.IH [OF vt nt] by (simp add: cons_result_def)
qed

lemma join_items_head: "\<exists>r. join_items (map encode_str (x # xs)) = 0x22 # r"
  by (cases xs) (simp_all add: encode_str_def)

lemma skip_ws_quote: "skip_ws (0x22 # r) = 0x22 # r"
  by (simp add: skip_ws_def json_ws_def)

lemma parse_elems_item:
  assumes "valid_str x" and "no_surrogate_pair x"
  shows "parse_elems (encode_str x @ rest) =
     (case skip_ws rest of
        [] \<Rightarrow> None
      | ch2 # r3 \<Rightarrow>
          if ch2 = of_char CHR '']'' then (if skip_ws r3 = [] then Some [x] else None)
          else if ch2 = of_char CHR '','' then
            (case parse_elems (skip_ws r3) of None \<Rightarrow> None | Some vs \<Rightarrow> Some (x # vs))
          else None)"
proof -
  have "encode_str x @ rest = 0x22 # (concat (map escape x) @ 0x22 # rest)"
    by (simp add: encode_str_def)
  then show ?thesis
    by (subst parse_elems.simps) (simp add: scanstring_body [OF assms])
qed

lemma parse_elems_join:
  assumes "list_all valid_str (x # xs)" and "list_all no_surrogate_pair (x # xs)"
  shows "parse_elems (join_items (map encode_str (x # xs)) @ code_points '']'') = Some (x # xs)"
  using assms
proof (induction xs arbitrary: x)
  case Nil
  then have x: "valid_str x" "no_surrogate_pair x" by simp_all
  show ?case
    using parse_elems_item [OF x, of "code_points '']''"]
    by (simp add: skip_ws_def json_ws_def code_points_def)
next
  case (Cons y ys)
  from Cons.prems have x: "valid_str x" "no_surrogate_pair x"
    and r: "list_all valid_str (y # ys)" "list_all no_surrogate_pair (y # ys)"
    by simp_all
  let ?rest = "join_items (map encode_str (y # ys)) @ code_points '']''"
  obtain h where h: "join_items (map encode_str (y # ys)) = 0x22 # h"
    using join_items_head by blast
  have "join_items (map encode_str (x # y # ys)) @ code_points '']'' =
        encode_str x @ (code_points '', '' @ ?rest)"
    by simp
  moreover have "skip_ws (code_points '', '' @ ?rest) = of_char CHR '','' # 0x20 # ?rest"
    by (simp add: skip_ws_def json_ws_def code_points_def)
  moreover have "skip_ws (0x20 # ?rest) = ?rest"
    using h by (simp add: skip_ws_def json_ws_def)
  ultimately show ?case
    using parse_elems_item [OF x, of "code_points '', '' @ ?rest"] Cons.IH [OF r]
    by simp
qed

text \<open>\<open>json.loads\<close> reads back what \<open>json.dumps\<close> writes of such strings.\<close>

lemma loads_dumps_list:
  assumes "list_all valid_str xs" and "list_all no_surrogate_pair xs"
  shows "loads (dumps_list xs) = Some xs"
proof (cases xs)
  case Nil
  then show ?thesis
    by (simp add: loads_def dumps_list_def skip_ws_def json_ws_def code_points_def)
next
  case (Cons y ys)
  obtain h where h: "join_items (map encode_str (y # ys)) = 0x22 # h"
    using join_items_head by blast
  have "dumps_list xs = of_char CHR ''['' # (join_items (map encode_str (y # ys)) @ code_points '']'')"
    by (simp add: dumps_list_def Cons code_points_def)
  moreover have "skip_ws (join_items (map encode_str (y # ys)) @ code_points '']'') =
      0x22 # (h @ code_points '']'')"
    using h by (simp add: skip_ws_quote)
  moreover have "parse_elems (0x22 # (h @ code_points '']'')) = Some (y # ys)"
    using parse_elems_join [of y ys] assms h by (simp add: Cons)
  ultimately show ?thesis
    by (simp add: loads_def skip_ws_def json_ws_def Cons)
qed

text \<open>What \<open>json.dumps\<close> writes is ASCII, and the strings of the traversal are read back.\<close>

lemma escape_ascii: "list_all (\<lambda>n. n < 256) (escape n)"
  by (simp add: escape_def hex4_def hex_digit_less Let_def)

lemma encode_str_ascii: "list_all (\<lambda>n. n < 256) (encode_str t)"
  using escape_ascii by (auto simp: encode_str_def list_all_iff)

lemma join_items_ascii:
  "list_all (list_all (\<lambda>n. n < 256)) ys \<Longrightarrow> list_all (\<lambda>n. n < 256) (join_items ys)"
  by (induction ys rule: join_items.induct) (simp_all add: code_points_def)

lemma dumps_list_ascii: "list_all (\<lambda>n. n < 256) (dumps_list xs)"
proof -
  have "list_all (list_all (\<lambda>n. n < 256)) (map encode_str xs)"
    by (simp add: list_all_iff encode_str_ascii [unfolded list_all_iff])
  from join_items_ascii [OF this] show ?thesis
    by (simp add: dumps_list_def code_points_def)
qed

lemma code_points_chars: "list_all (\<lambda>n. n < 256) t \<Longrightarrow> code_points (chars t) = t"
  by (induction t) (simp_all add: code_points_def chars_def)

lemma chars_code_points: "chars (code_points t) = t"
  by (induction t) (simp_all add: code_points_def chars_def)

lemma code_points_less: "list_all (\<lambda>n. n < 256) (code_points t)"
  by (induction t) (simp_all add: code_points_def)

lemma code_points_valid: "valid_str (code_points t)"
  by (induction t) (simp_all add: code_points_def valid_str_def order_less_trans [OF String.nat_of_char_less_256])

lemma code_points_no_surrogate_pair: "no_surrogate_pair (code_points t)"
proof -
  have "list_all (\<lambda>n. n < 256) u \<Longrightarrow> no_surrogate_pair u" for u
    by (induction u rule: no_surrogate_pair.induct) (simp_all add: high_surrogate_def)
  from this [OF code_points_less] show ?thesis .
qed

lemma json_loads_encode_list: "json_loads (encode_list xs) = Some xs"
proof -
  have 1: "code_points (encode_list xs) = dumps_list (map code_points xs)"
    by (simp add: encode_list_def code_points_chars dumps_list_ascii)
  have 2: "loads (dumps_list (map code_points xs)) = Some (map code_points xs)"
    by (rule loads_dumps_list)
       (simp_all add: list_all_iff code_points_valid code_points_no_surrogate_pair)
  have 3: "list_all (list_all (\<lambda>n. n < 256)) (map code_points xs)"
    by (simp add: list_all_iff code_points_less [unfolded list_all_iff])
  have 4: "map chars (map code_points xs) = xs"
    by (induction xs) (simp_all add: chars_code_points)
  show ?thesis
    unfolding json_loads_def 1 2 using 3 4 by simp
qed

lemma encode_list_empty: "encode_list [] = ''[]''"
proof -
  have "dumps_list [] = code_points ''[]''"
    by (simp add: dumps_list_def code_points_def)
  then show ?thesis by (simp add: encode_list_def chars_code_points)
qed

lemma json_dumps_collection:
  "json_dumps (LinksList xs) = Inr (encode_list xs)"
  "json_dumps (LinksSet xs) = Inr (encode_list xs)"
  by (simp_all add: json_dumps_def dumps_def encode_list_def)

section \<open>Evaluation on the example site\<close>

lemmas site_defs = site_cfg_def site_web_def site_urljoin_def site_seed_def blank_def init_state_def
  urlsplit_netloc_def ascii_letters_def scheme_chars_def

lemma site_depth0_fetched: "fetched (snd (scrape (site_cfg 0) site_seed 0 (init_state Map.empty blank))) = [(site_seed, 0)]"
  apply (subst scrape.simps)
  apply (simp add: scrape_page_def get_links_def get_link_def resolve_href_def startswith_def
    logging_def save_to_db_def Let_def site_defs)
  done

lemmas step_defs = scrape_page_def get_links_def get_link_def binds_def resolve_href_def startswith_def
    logging_def save_to_db_def Let_def strip_def py_isspace_def

lemma site_run_fetched:
  "fetched (snd (start_scraping (site_cfg 1) (init_state Map.empty blank))) =
     [(''https://site.test/'', 0), (''https://site.test/a'', 1), (''https://site.test/notitle'', 1)]"
  by (simp add: start_scraping_def scrape.simps [where d = 0] scrape.simps [where d = 1]
        step_defs site_defs)

section \<open>The depth guard\<close>

text \<open>
  C1. A call \<open>scrape(url, depth)\<close> with \<open>depth > max_depth\<close> returns at once: its result is
  \<open>Skipped\<close> and the state, including the set of visited URLs, the table, the queue and
  the trace of fetches, is the state it was called in. Every fetch issued by any call
  of \<open>scrape\<close> is issued by a task whose depth is at most \<open>max_depth\<close>.
\<close>

theorem scrape_depth_guard:
  "(max_depth c < d \<longrightarrow> scrape c u d s = (Skipped, s)) \<and>
   (\<exists>new. fetched (snd (scrape c u d s)) = fetched s @ new \<and> (\<forall>e\<in>set new. snd e \<le> max_depth c))"
  using scrape_skip [of c d u s] scrape_fetch_ext [of c s u d]
  by (simp add: fetch_ext_def)

theorem scrape_depth_guard_witness:
  "(max_depth (site_cfg 1) < 2 \<and>
    scrape (site_cfg 1) site_seed 2 (init_state Map.empty blank) = (Skipped, init_state Map.empty blank)) \<and>
   (fetched (snd (scrape (site_cfg 0) site_seed 0 (init_state Map.empty blank))) = [(site_seed, 0)] \<and>
    list_all (\<lambda>e. snd e \<le> max_depth (site_cfg 0))
      (fetched (snd (scrape (site_cfg 0) site_seed 0 (init_state Map.empty blank)))))"
proof -
  have a: "max_depth (site_cfg 1) < 2" by (simp add: site_cfg_def)
  have b: "fetched (init_state Map.empty blank) = []" by (simp add: init_state_def)
  from a scrape_depth_guard [of "site_cfg 1" 2 site_seed "init_state Map.empty blank"]
    scrape_depth_guard [of "site_cfg 0" 0 site_seed "init_state Map.empty blank"] b site_depth0_fetched
  show ?thesis by (auto simp: list_all_iff)
qed

section \<open>The visited guard\<close>

lemma scrape_page_fetched_once:
  "fetched_once s \<longrightarrow> fetched_once (snd (scrape_page c u d s))"
proof (cases "max_depth c < d \<or> u \<in> visited_urls s")
  case True
  then show ?thesis by (simp add: scrape_page_skip)
next
  case False
  obtain r s' where sp: "scrape_page c u d s = (r, s')" by (cases "scrape_page c u d s")
  from scrape_page_frame [OF sp False]
  have "visited_urls s' = insert u (visited_urls s)" "fetched s' = fetched s @ [(u, d)]"
    by simp_all
  with False sp show ?thesis by (auto simp: fetched_once_def)
qed

lemma scrape_fetched_once:
  "fetched_once s \<longrightarrow> fetched_once (snd (scrape c u d s))"
proof (rule scrape_rel [of "\<lambda>s s'. fetched_once s \<longrightarrow> fetched_once s'"])
  show "fetched_once s \<longrightarrow> fetched_once s" for s by simp
  show "fetched_once s \<longrightarrow> fetched_once t \<Longrightarrow> fetched_once t \<longrightarrow> fetched_once r \<Longrightarrow>
        fetched_once s \<longrightarrow> fetched_once r" for s t r by simp
  show "fetched_once s \<longrightarrow> fetched_once (snd (scrape_page c u d s))" for u d s
    by (rule scrape_page_fetched_once)
qed

lemma resume_scraping_frame:
  "resume_scraping c s = (r, s') \<Longrightarrow>
     fetched s' = fetched s \<and> visited_urls s' = visited_urls s \<and>
     db_insert_queue s' = db_insert_queue s \<and> db s' = db s \<and> driver s' = driver s \<and>
     writer_started s' = writer_started s"
  by (auto simp: resume_scraping_def logging_def split: if_splits option.splits)

lemma start_scraping_fetched_once:
  assumes "fetched_once s"
  shows "fetched_once (snd (start_scraping c s))"
proof (cases "query_fails c (initial_url c)")
  case True
  with assms show ?thesis by (simp add: start_scraping_def)
next
  case nf: False
  show ?thesis
  proof (cases "db s (initial_url c)")
    case (Some p)
    obtain r s' where rs: "resume_scraping c (logging (InfoResuming (Suc 0) (initial_url c)) s) = (r, s')"
      by (cases "resume_scraping c (logging (InfoResuming (Suc 0) (initial_url c)) s)")
    from resume_scraping_frame [OF rs] assms have "fetched_once s'"
      by (simp add: fetched_once_def logging_def)
    with nf Some rs show ?thesis
      by (cases r) (simp_all add: start_scraping_def fetched_once_def)
  next
    case None
    define s1 where "s1 = logging (InfoStart (initial_url c) (max_depth c)) s"
    obtain out s' where sc: "scrape c (initial_url c) 0 s1 = (out, s')"
      by (cases "scrape c (initial_url c) 0 s1")
    from assms have "fetched_once s1" by (simp add: s1_def fetched_once_def logging_def)
    with scrape_fetched_once [of s1 c "initial_url c" 0] sc have "fetched_once s'" by simp
    with nf None sc show ?thesis
      by (cases out) (simp_all add: start_scraping_def fetched_once_def s1_def)
  qed
qed

text \<open>
  C2. With one worker per pool (\<open>max_threads = 1\<close>, the schedule of this model) no URL is
  fetched twice in a run: in the state that \<open>start_scraping\<close> leaves from a fresh scraper
  the URLs of the trace of fetches are distinct and all in \<open>visited_urls\<close>; a call of
  \<open>scrape\<close> on a URL that is in \<open>visited_urls\<close> returns at once with the state unchanged;
  and every call of \<open>scrape\<close> keeps the trace free of repetitions and inside
  \<open>visited_urls\<close>.
\<close>

theorem visited_once:
  "max_threads c = 1 \<Longrightarrow>
     fetched_once (snd (start_scraping c (init_state pages b))) \<and>
     (u \<in> visited_urls s \<longrightarrow> scrape c u d s = (Skipped, s)) \<and>
     (fetched_once s \<longrightarrow> fetched_once (snd (scrape c u d s)))"
proof -
  have "fetched_once (init_state pages b)" by (simp add: fetched_once_def init_state_def)
  then show ?thesis
    using start_scraping_fetched_once [of "init_state pages b" c] scrape_skip [of c d u s]
      scrape_fetched_once [of s c u d]
    by simp
qed

theorem visited_once_witness:
  "max_threads (site_cfg 1) = 1 \<and>
   fetched (snd (start_scraping (site_cfg 1) (init_state Map.empty blank))) =
     [(''https://site.test/'', 0), (''https://site.test/a'', 1), (''https://site.test/notitle'', 1)] \<and>
   fetched_once (snd (start_scraping (site_cfg 1) (init_state Map.empty blank))) \<and>
   scrape (site_cfg 1) site_seed 0 ((init_state Map.empty blank)\<lparr>visited_urls := {site_seed}\<rparr>) =
     (Skipped, (init_state Map.empty blank)\<lparr>visited_urls := {site_seed}\<rparr>)"
proof -
  have a: "max_threads (site_cfg 1) = 1" by (simp add: site_cfg_def)
  have b: "site_seed \<in> visited_urls ((init_state Map.empty blank)\<lparr>visited_urls := {site_seed}\<rparr>)"
    by simp
  from visited_once [OF a, of Map.empty blank site_seed
      "(init_state Map.empty blank)\<lparr>visited_urls := {site_seed}\<rparr>" 0] a b site_run_fetched
  show ?thesis by simp
qed

section \<open>Classification of a link\<close>

text \<open>
  For a link whose network location is that of the seed, when the table can be read:
  without a row for the URL, \<open>get_link\<close> returns the link, but the commit of the new row,
  whose \<open>links\<close> is a set, raises, so that the error is logged and no row is written; with
  a row of depth below \<open>max_depth\<close> whose update the database accepts, it adds one to the
  stored depth and returns the link; with a row of depth \<open>max_depth\<close> or more, it returns
  no link and leaves the state as it is.
\<close>

lemma get_link_new_row:
  assumes "urlparse_netloc c href = Some n" and "urlparse_netloc c (initial_url c) = Some n"
    and "\<not> query_fails c href" and "db s href = None"
  shows "get_link c href s = ([href], logging (ErrorParsing href) s)"
  using assms by (simp add: get_link_def binds_def Let_def)

lemma get_link_existing_row:
  assumes "urlparse_netloc c href = Some n" and "urlparse_netloc c (initial_url c) = Some n"
    and "\<not> query_fails c href" and "db s href = Some p"
  shows "depth p < max_depth c \<Longrightarrow> \<not> commit_fails c (p\<lparr>depth := depth p + 1\<rparr>) \<Longrightarrow>
           get_link c href s = ([href], s\<lparr>db := (db s)(href \<mapsto> p\<lparr>depth := depth p + 1\<rparr>)\<rparr>)"
    and "max_depth c \<le> depth p \<Longrightarrow> get_link c href s = ([], s)"
  using assms by (simp_all add: get_link_def Let_def)

text \<open>
  C3. On the example site with an empty table, \<open>get_link\<close> on the same-domain link
  \<open>https://site.test/a\<close> returns the link for further expansion, logs an error, and
  leaves the table without a row for the URL: the placeholder row of the claim is not
  created.
\<close>

theorem get_link_new_leaves_no_row:
  "get_link (site_cfg 1) ''https://site.test/a'' (init_state Map.empty blank) =
     ([''https://site.test/a''],
      logging (ErrorParsing ''https://site.test/a'') (init_state Map.empty blank)) \<and>
   db (snd (get_link (site_cfg 1) ''https://site.test/a'' (init_state Map.empty blank)))
      ''https://site.test/a'' = None"
proof -
  have n1: "urlparse_netloc (site_cfg 1) ''https://site.test/a'' = Some ''site.test''"
    by (simp add: site_defs)
  have n2: "urlparse_netloc (site_cfg 1) (initial_url (site_cfg 1)) = Some ''site.test''"
    by (simp add: site_defs)
  have q: "\<not> query_fails (site_cfg 1) ''https://site.test/a''"
    by (simp add: site_cfg_def)
  have e: "db (init_state Map.empty blank) ''https://site.test/a'' = None"
    by (simp add: init_state_def)
  from get_link_new_row [OF n1 n2 q e] show ?thesis
    by (simp add: logging_def init_state_def)
qed

section \<open>A page without title\<close>

text \<open>
  C10. When the page fetched for a URL has no title element, the call of \<open>scrape\<close> ends
  in an \<open>AttributeError\<close> raised at the extraction of the title, after the URL has been
  marked visited and fetched: it ends in none of \<open>Skipped\<close>, \<open>Failed\<close>, \<open>Completed\<close>.
\<close>

theorem scrape_no_title_raises:
  assumes "d \<le> max_depth c" and "u \<notin> visited_urls s" and "driver_get c u = Some b"
    and "title_tag (page_source b) = None"
  shows "scrape c u d s =
           (Raised AttributeError,
            s\<lparr>visited_urls := insert u (visited_urls s), fetched := fetched s @ [(u, d)],
              driver := b\<rparr>)"
  using assms by (subst scrape.simps) (simp add: scrape_page_def Let_def)

theorem scrape_no_title_raises_witness:
  "scrape (site_cfg 1) ''https://site.test/notitle'' 1 (init_state Map.empty blank) =
     (Raised AttributeError,
      (init_state Map.empty blank)\<lparr>visited_urls := insert ''https://site.test/notitle''
          (visited_urls (init_state Map.empty blank)),
        fetched := fetched (init_state Map.empty blank) @ [(''https://site.test/notitle'', 1)],
        driver := \<lparr>current_url = ''https://site.test/notitle'',
                    page_source = \<lparr>title_tag = None, anchors = []\<rparr>\<rparr>\<rparr>)"
proof -
  have a: "1 \<le> max_depth (site_cfg 1)" by (simp add: site_cfg_def)
  have b: "''https://site.test/notitle'' \<notin> visited_urls (init_state Map.empty blank)"
    by (simp add: init_state_def)
  have c: "driver_get (site_cfg 1) ''https://site.test/notitle'' =
             Some \<lparr>current_url = ''https://site.test/notitle'',
                    page_source = \<lparr>title_tag = None, anchors = []\<rparr>\<rparr>"
    by (simp add: site_cfg_def site_web_def)
  have d: "title_tag (page_source \<lparr>current_url = ''https://site.test/notitle'',
                    page_source = \<lparr>title_tag = None, anchors = []\<rparr>\<rparr>) = None"
    by simp
  from scrape_no_title_raises [OF a b c d] show ?thesis .
qed

section \<open>Resuming\<close>

text \<open>
  C6. With a row of the seed at depth 0 and \<open>max_depth = 1\<close>, \<open>resume_scraping\<close> raises
  \<open>AttributeError\<close> and leaves the state as it found it: the seed has not been added
  to \<open>visited_urls\<close> and \<open>scrape\<close> has not been called.
\<close>

theorem resume_scraping_raises:
  "resume_scraping (site_cfg 1) (init_state [site_seed \<mapsto> 
       \<lparr>url = site_seed, source_url = site_seed, depth = 0, title = Bytes ''Home'',
        links = LinksStr ''[]''\<rparr>] blank) =
     (Some AttributeError, init_state [site_seed \<mapsto> 
       \<lparr>url = site_seed, source_url = site_seed, depth = 0, title = Bytes ''Home'',
        links = LinksStr ''[]''\<rparr>] blank)"
  by (simp add: resume_scraping_def site_cfg_def init_state_def)

section \<open>Round trip of the links\<close>




section \<open>The loop of the writer\<close>

lemma write_entry_queue: "db_insert_queue (write_entry c e s) = db_insert_queue s"
  by (cases e) (auto simp: write_entry_def logging_def Let_def split: sum.splits links_val.splits)

lemma run_db_inserts_sentinel:
  "db_insert_queue s = None # q \<Longrightarrow> run_db_inserts c s = (Exited, s\<lparr>db_insert_queue := q\<rparr>)"
  by (subst run_db_inserts.simps) simp

lemma run_db_inserts_entry:
  "db_insert_queue s = Some e # q \<Longrightarrow>
     run_db_inserts c s = run_db_inserts c (write_entry c e (s\<lparr>db_insert_queue := q\<rparr>))"
  by (subst run_db_inserts.simps) simp

lemma write_entry_collection:
  assumes "ls = LinksList xs \<or> ls = LinksSet xs"
  shows "write_entry c (u, src, d, t, ls) s =
     (if query_fails c u \<or>
         commit_fails c \<lparr>url = u, source_url = src, depth = d, title = Bytes (utf8_encode t),
                          links = LinksStr (encode_list xs)\<rparr>
      then logging (ErrorSaving u) s
      else s\<lparr>db := (db s)(u \<mapsto> \<lparr>url = u, source_url = src, depth = d,
                  title = Bytes (utf8_encode t), links = LinksStr (encode_list xs)\<rparr>)\<rparr>)"
  using assms by (auto simp: write_entry_def json_dumps_collection Let_def)

lemma run_db_inserts_exits:
  "None \<in> set (db_insert_queue s) \<Longrightarrow> fst (run_db_inserts c s) = Exited"
proof (induction c s rule: run_db_inserts.induct)
  case (1 c s)
  show ?case
  proof (cases "db_insert_queue s")
    case Nil
    with "1.prems" show ?thesis by simp
  next
    case (Cons r q)
    show ?thesis
    proof (cases r)
      case None
      with Cons show ?thesis by (simp add: run_db_inserts_sentinel)
    next
      case (Some e)
      with Cons "1.prems" have "None \<in> set q" by simp
      then have "None \<in> set (db_insert_queue (write_entry c e (s\<lparr>db_insert_queue := q\<rparr>)))"
        by (simp add: write_entry_queue)
      from "1.IH" [OF Cons Some this] Cons Some show ?thesis
        by (simp add: run_db_inserts_entry)
    qed
  qed
qed

text \<open>
  C7. The loop of \<open>run_db_inserts\<close>, for the entry at the head of the queue: on the
  sentinel the loop exits, with the sentinel taken off the queue; for an entry whose
  links are a list or a set, the links are serialised to a string that \<open>json.loads\<close>
  reads back as that list, and when the store neither fails on reading the row nor on
  writing it, the row is put into the table under the entry's URL and the loop goes on
  with the rest of the queue; when the store fails, the error is logged, the table is
  unchanged, the entry is gone from the queue, and the loop goes on with the rest of the
  queue. A writer whose queue holds a sentinel exits.
\<close>

theorem run_db_inserts_step:
  "(db_insert_queue s = None # q \<longrightarrow> run_db_inserts c s = (Exited, s\<lparr>db_insert_queue := q\<rparr>)) \<and>
   (db_insert_queue s = Some (u, src, d, t, ls) # q \<and> (ls = LinksList xs \<or> ls = LinksSet xs) \<longrightarrow>
      json_loads (encode_list xs) = Some xs \<and>
      (if query_fails c u \<or>
          commit_fails c \<lparr>url = u, source_url = src, depth = d, title = Bytes (utf8_encode t),
                           links = LinksStr (encode_list xs)\<rparr>
       then run_db_inserts c s =
              run_db_inserts c (logging (ErrorSaving u) (s\<lparr>db_insert_queue := q\<rparr>))
       else run_db_inserts c s =
              run_db_inserts c
                (s\<lparr>db_insert_queue := q,
                   db := (db s)(u \<mapsto> \<lparr>url = u, source_url = src, depth = d,
                     title = Bytes (utf8_encode t), links = LinksStr (encode_list xs)\<rparr>)\<rparr>))) \<and>
   (None \<in> set (db_insert_queue s) \<longrightarrow> fst (run_db_inserts c s) = Exited)"
proof (intro conjI impI)
  assume "db_insert_queue s = None # q"
  then show "run_db_inserts c s = (Exited, s\<lparr>db_insert_queue := q\<rparr>)"
    by (rule run_db_inserts_sentinel)
next
  show "json_loads (encode_list xs) = Some xs" by (rule json_loads_encode_list)
next
  assume a: "db_insert_queue s = Some (u, src, d, t, ls) # q \<and> (ls = LinksList xs \<or> ls = LinksSet xs)"
  then have col: "ls = LinksList xs \<or> ls = LinksSet xs" by simp
  from a have "run_db_inserts c s =
      run_db_inserts c (write_entry c (u, src, d, t, ls) (s\<lparr>db_insert_queue := q\<rparr>))"
    by (simp add: run_db_inserts_entry)
  then show "if query_fails c u \<or>
          commit_fails c \<lparr>url = u, source_url = src, depth = d, title = Bytes (utf8_encode t),
                           links = LinksStr (encode_list xs)\<rparr>
       then run_db_inserts c s =
              run_db_inserts c (logging (ErrorSaving u) (s\<lparr>db_insert_queue := q\<rparr>))
       else run_db_inserts c s =
              run_db_inserts c
                (s\<lparr>db_insert_queue := q,
                   db := (db s)(u \<mapsto> \<lparr>url = u, source_url = src, depth = d,
                     title = Bytes (utf8_encode t), links = LinksStr (encode_list xs)\<rparr>)\<rparr>)"
    by (simp add: write_entry_collection [OF col])
next
  assume "None \<in> set (db_insert_queue s)"
  then show "fst (run_db_inserts c s) = Exited" by (rule run_db_inserts_exits)
qed

theorem run_db_inserts_step_witness:
  "run_db_inserts (site_cfg 1)
      ((init_state Map.empty blank)\<lparr>db_insert_queue := [Some site_entry, None]\<rparr>) =
     (Exited, (init_state Map.empty blank)
        \<lparr>db_insert_queue := [], db := [''https://site.test/a'' \<mapsto> site_row]\<rparr>) \<and>
   json_loads (encode_list [''https://site.test/'']) = Some [''https://site.test/''] \<and>
   run_db_inserts ((site_cfg 1)\<lparr>commit_fails := \<lambda>p. True\<rparr>)
      ((init_state Map.empty blank)\<lparr>db_insert_queue := [Some site_entry, None]\<rparr>) =
     (Exited, logging (ErrorSaving ''https://site.test/a'')
        ((init_state Map.empty blank)\<lparr>db_insert_queue := []\<rparr>))"
proof -
  let ?s = "(init_state Map.empty blank)\<lparr>db_insert_queue := [Some site_entry, None]\<rparr>"
  let ?bad = "(site_cfg 1)\<lparr>commit_fails := \<lambda>p. True\<rparr>"
  have q: "db_insert_queue ?s =
      Some (''https://site.test/a'', ''https://site.test/a'', 1, ''A'',
            LinksList [''https://site.test/'']) # [None]"
    by (simp add: site_entry_def)
  have ok: "\<not> (query_fails (site_cfg 1) ''https://site.test/a'' \<or> commit_fails (site_cfg 1) site_row)"
    by (simp add: site_cfg_def)
  have bad: "query_fails ?bad ''https://site.test/a'' \<or> commit_fails ?bad site_row"
    by simp
  note st = run_db_inserts_step [where s = ?s and q = "[None]" and u = "''https://site.test/a''"
      and src = "''https://site.test/a''" and d = 1 and t = "''A''"
      and ls = "LinksList [''https://site.test/'']" and xs = "[''https://site.test/'']"]
  from st [where c = "site_cfg 1"] q ok
  have 1: "run_db_inserts (site_cfg 1) ?s =
      run_db_inserts (site_cfg 1)
        ((init_state Map.empty blank)
           \<lparr>db_insert_queue := [None], db := [''https://site.test/a'' \<mapsto> site_row]\<rparr>)"
    and 2: "json_loads (encode_list [''https://site.test/'']) = Some [''https://site.test/'']"
    by (simp_all add: site_row_def init_state_def)
  from st [where c = ?bad] q bad
  have 3: "run_db_inserts ?bad ?s =
      run_db_inserts ?bad
        (logging (ErrorSaving ''https://site.test/a'')
          ((init_state Map.empty blank)\<lparr>db_insert_queue := [None]\<rparr>))"
    by (simp add: site_row_def init_state_def)
  have 4: "run_db_inserts (site_cfg 1)
        ((init_state Map.empty blank)
           \<lparr>db_insert_queue := [None], db := [''https://site.test/a'' \<mapsto> site_row]\<rparr>) =
      (Exited, (init_state Map.empty blank)
        \<lparr>db_insert_queue := [], db := [''https://site.test/a'' \<mapsto> site_row]\<rparr>)"
    using run_db_inserts_step [where c = "site_cfg 1" and q = "[]" and s = "(init_state Map.empty blank)
           \<lparr>db_insert_queue := [None], db := [''https://site.test/a'' \<mapsto> site_row]\<rparr>"]
    by simp
  have 5: "run_db_inserts ?bad
        (logging (ErrorSaving ''https://site.test/a'')
          ((init_state Map.empty blank)\<lparr>db_insert_queue := [None]\<rparr>)) =
      (Exited, logging (ErrorSaving ''https://site.test/a'')
        ((init_state Map.empty blank)\<lparr>db_insert_queue := []\<rparr>))"
    using run_db_inserts_step [where c = ?bad and q = "[]" and s = "logging (ErrorSaving ''https://site.test/a'')
          ((init_state Map.empty blank)\<lparr>db_insert_queue := [None]\<rparr>)"]
    by (simp add: logging_def)
  from 1 2 3 4 5 show ?thesis by simp
qed

section \<open>Resolution of an href\<close>

text \<open>
  What \<open>get_links\<close> and \<open>get_link\<close> do with an href: an anchor without href or with the
  empty href is skipped; an href that starts with \<open>/\<close> or does not start with \<open>http\<close> is
  handed to \<open>urljoin\<close> with the seed; a link whose network location is not that of the
  seed is dropped without any effect.
\<close>

lemma get_links_loop_skips:
  "get_links_loop c (None # as) futs s = get_links_loop c as futs s"
  "get_links_loop c (Some [] # as) futs s = get_links_loop c as futs s"
  by simp_all

lemma resolve_href_joined:
  "startswith h ''/'' \<or> \<not> startswith h ''http'' \<Longrightarrow>
     resolve_href c h = urljoin c (initial_url c) h"
  by (auto simp: resolve_href_def)

lemma get_link_other_netloc:
  "urlparse_netloc c h = Some n \<Longrightarrow> urlparse_netloc c (initial_url c) = Some n0 \<Longrightarrow>
     n \<noteq> n0 \<Longrightarrow> get_link c h s = ([], s)"
  by (simp add: get_link_def)

lemma site_resolution_examples:
  "resolve_href (site_cfg 1) ''/a/b'' = Some ''https://site.test/a/b''"
  "fst (get_link (site_cfg 1) ''https://site.test/a/b'' (init_state Map.empty blank)) =
     [''https://site.test/a/b'']"
  "resolve_href (site_cfg 1) ''https://other.example/x'' = Some ''https://other.example/x''"
  "get_link (site_cfg 1) ''https://other.example/x'' (init_state Map.empty blank) =
     ([], init_state Map.empty blank)"
  by (simp_all add: step_defs site_defs)

text \<open>
  C4. On a page of the site \<open>https://site.test/\<close>, the href \<open>http-faq.html\<close> has no scheme
  and no network location. \<open>get_links\<close> does not resolve it against the seed, because it
  starts with \<open>http\<close>, and \<open>get_link\<close> then drops it, its network location being empty;
  resolved against the seed it would be \<open>https://site.test/http-faq.html\<close>, which
  \<open>get_link\<close> accepts.
\<close>

theorem http_prefixed_relative_href_dropped:
  "resolve_href (site_cfg 1) ''http-faq.html'' = Some ''http-faq.html'' \<and>
   get_links (site_cfg 1) \<lparr>title_tag = Some (Some ''Home''), anchors = [Some ''http-faq.html'']\<rparr>
       site_seed (init_state Map.empty blank) = (Inr [], init_state Map.empty blank) \<and>
   fst (get_link (site_cfg 1) ''https://site.test/http-faq.html'' (init_state Map.empty blank)) =
     [''https://site.test/http-faq.html'']"
  by (simp add: step_defs site_defs)

section \<open>The writes of the traversal\<close>

lemma link_row_refl: "link_row r r"
  by (simp add: link_row_def same_but_depth_def split: option.splits)

lemma link_row_trans: "link_row a b \<Longrightarrow> link_row b c \<Longrightarrow> link_row a c"
  by (auto simp: link_row_def same_but_depth_def split: option.splits)

lemma only_link_rows_refl: "only_link_rows s s"
  by (simp add: only_link_rows_def link_row_refl)

lemma only_link_rows_trans:
  "only_link_rows s t \<Longrightarrow> only_link_rows t r \<Longrightarrow> only_link_rows s r"
  unfolding only_link_rows_def by (blast intro: link_row_trans)

lemma only_link_rows_db: "db s' = db s \<Longrightarrow> only_link_rows s s'"
  by (simp add: only_link_rows_def link_row_refl)

lemma get_link_only_link_rows: "only_link_rows s (snd (get_link c h s))"
  by (auto simp: get_link_def logging_def Let_def only_link_rows_def link_row_def
        same_but_depth_def split: option.splits)

lemma get_links_loop_only_link_rows:
  "only_link_rows s (snd (get_links_loop c as futs s))"
proof (induction c as futs s rule: get_links_loop.induct)
  case (1 c futs s)
  show ?case by (simp add: only_link_rows_refl)
next
  case (2 c as futs s)
  then show ?case by simp
next
  case (3 c href as futs s)
  show ?case
  proof (cases "href = []")
    case True
    with 3 show ?thesis by simp
  next
    case ne: False
    show ?thesis
    proof (cases "resolve_href c href")
      case None
      with ne show ?thesis by (simp add: only_link_rows_refl)
    next
      case (Some h)
      obtain ls s1 where gl: "get_link c h s = (ls, s1)" by (cases "get_link c h s")
      have a: "only_link_rows s s1"
        using get_link_only_link_rows [of s c h] gl by simp
      have b: "only_link_rows s1 (snd (get_links_loop c as (futs @ [ls]) s1))"
        using "3.IH" (2) [OF ne Some gl [symmetric]] by simp
      from only_link_rows_trans [OF a b] ne Some gl show ?thesis by simp
    qed
  qed
qed

lemma get_links_only_link_rows: "only_link_rows s (snd (get_links c sp u s))"
proof -
  have "snd (get_links c sp u s) = snd (get_links_loop c (anchors sp) [] s)"
    by (simp add: get_links_def split: prod.splits sum.splits)
  then show ?thesis by (simp add: get_links_loop_only_link_rows)
qed

lemma scrape_page_only_link_rows: "only_link_rows s (snd (scrape_page c u d s))"
proof (cases "max_depth c < d \<or> u \<in> visited_urls s")
  case True
  then show ?thesis by (simp add: scrape_page_skip only_link_rows_refl)
next
  case go: False
  show ?thesis
  proof (cases "driver_get c u")
    case None
    with go show ?thesis
      by (auto simp: scrape_page_def Let_def logging_def intro: only_link_rows_db)
  next
    case (Some b)
    define s3 where "s3 = s\<lparr>visited_urls := insert u (visited_urls s),
                           fetched := fetched s @ [(u, d)], driver := b\<rparr>"
    have a: "only_link_rows s s3" by (rule only_link_rows_db) (simp add: s3_def)
    show ?thesis
    proof (cases "title_tag (page_source b)")
      case None
      with go Some a show ?thesis by (auto simp: scrape_page_def Let_def s3_def)
    next
      case outer: (Some tt)
      show ?thesis
      proof (cases tt)
        case None
        with go Some outer a show ?thesis by (auto simp: scrape_page_def Let_def s3_def)
      next
        case inner: (Some t)
        obtain r4 s4 where gl: "get_links c (page_source b) u s3 = (r4, s4)"
          by (cases "get_links c (page_source b) u s3")
        have b: "only_link_rows s3 s4"
          using get_links_only_link_rows [of s3 c "page_source b" u] gl by simp
        have c: "only_link_rows s s4" by (rule only_link_rows_trans [OF a b])
        show ?thesis
        proof (cases r4)
          case (Inl e)
          with go Some outer inner gl c show ?thesis
            by (auto simp: scrape_page_def Let_def s3_def)
        next
          case (Inr ls)
          with go Some outer inner gl have
            "snd (scrape_page c u d s) = logging (InfoScraped u d (strip t))
               (save_to_db (u, current_url (driver s4), d, strip t, LinksList ls) s4)"
            by (auto simp: scrape_page_def Let_def s3_def)
          moreover have "only_link_rows s4 (logging (InfoScraped u d (strip t))
               (save_to_db (u, current_url (driver s4), d, strip t, LinksList ls) s4))"
            by (rule only_link_rows_db) (simp add: logging_def save_to_db_def)
          ultimately show ?thesis using only_link_rows_trans [OF c] by simp
        qed
      qed
    qed
  qed
qed

lemma scrape_only_link_rows: "only_link_rows s (snd (scrape c u d s))"
proof (rule scrape_rel [of only_link_rows])
  show "only_link_rows s s" for s by (rule only_link_rows_refl)
  show "only_link_rows s t \<Longrightarrow> only_link_rows t r \<Longrightarrow> only_link_rows s r" for s t r
    by (rule only_link_rows_trans)
  show "only_link_rows s (snd (scrape_page c u d s))" for u d s
    by (rule scrape_page_only_link_rows)
qed

lemma queue_ext_refl: "queue_ext s s"
proof -
  have "db_insert_queue s = db_insert_queue s @ map Some [] \<and>
        (\<forall>e\<in>set ([] :: entry list). fst e \<notin> visited_urls s)" by simp
  then show ?thesis unfolding queue_ext_def by blast
qed

lemma queue_ext_trans:
  assumes "queue_ext s t" and "queue_ext t r"
  shows "queue_ext s r"
proof -
  from assms obtain n1 n2 where
    v: "visited_urls s \<subseteq> visited_urls t" "visited_urls t \<subseteq> visited_urls r" and
    a: "db_insert_queue t = db_insert_queue s @ map Some n1" "\<forall>e\<in>set n1. fst e \<notin> visited_urls s" and
    b: "db_insert_queue r = db_insert_queue t @ map Some n2" "\<forall>e\<in>set n2. fst e \<notin> visited_urls t"
    unfolding queue_ext_def by blast
  from v a b have "db_insert_queue r = db_insert_queue s @ map Some (n1 @ n2) \<and>
      (\<forall>e\<in>set (n1 @ n2). fst e \<notin> visited_urls s)"
    by auto
  with v show ?thesis unfolding queue_ext_def by blast
qed

lemma scrape_page_queue_ext: "queue_ext s (snd (scrape_page c u d s))"
proof (cases "max_depth c < d \<or> u \<in> visited_urls s")
  case True
  then show ?thesis by (simp add: scrape_page_skip queue_ext_refl)
next
  case False
  obtain r s' where sp: "scrape_page c u d s = (r, s')" by (cases "scrape_page c u d s")
  note fr = scrape_page_frame [OF sp False]
  have "\<exists>new. db_insert_queue s' = db_insert_queue s @ map Some new \<and>
          (\<forall>e\<in>set new. fst e \<notin> visited_urls s)"
  proof (cases r)
    case (Inl out)
    with fr have "db_insert_queue s' = db_insert_queue s @ map Some [] \<and>
        (\<forall>e\<in>set ([] :: entry list). fst e \<notin> visited_urls s)" by simp
    then show ?thesis by blast
  next
    case (Inr ls)
    with fr obtain src t where
      "db_insert_queue s' = db_insert_queue s @ [Some (u, src, d, t, LinksList ls)]" by auto
    with False have "db_insert_queue s' = db_insert_queue s @ map Some [(u, src, d, t, LinksList ls)] \<and>
        (\<forall>e\<in>set [(u, src, d, t, LinksList ls)]. fst e \<notin> visited_urls s)" by simp
    then show ?thesis by blast
  qed
  moreover from fr have "visited_urls s \<subseteq> visited_urls s'" by auto
  ultimately show ?thesis using sp by (simp add: queue_ext_def)
qed

lemma scrape_queue_ext: "queue_ext s (snd (scrape c u d s))"
proof (rule scrape_rel [of queue_ext])
  show "queue_ext s s" for s by (rule queue_ext_refl)
  show "queue_ext s t \<Longrightarrow> queue_ext t r \<Longrightarrow> queue_ext s r" for s t r
    by (rule queue_ext_trans)
  show "queue_ext s (snd (scrape_page c u d s))" for u d s
    by (rule scrape_page_queue_ext)
qed

lemma scrape_writer_started: "writer_started (snd (scrape c u d s)) = writer_started s"
proof (rule scrape_rel [of "\<lambda>s s'. writer_started s' = writer_started s"])
  show "writer_started (snd (scrape_page c u d s)) = writer_started s" for u d s
  proof (cases "max_depth c < d \<or> u \<in> visited_urls s")
    case True
    then show ?thesis by (simp add: scrape_page_skip)
  next
    case False
    obtain r s' where sp: "scrape_page c u d s = (r, s')" by (cases "scrape_page c u d s")
    from scrape_page_frame [OF sp False] sp show ?thesis by simp
  qed
qed simp_all

lemma start_scraping_traversal:
  assumes "start_scraping c s = (r, s')"
  shows "\<exists>t. queue_ext s t \<and> only_link_rows s t \<and> writer_started t = writer_started s \<and>
             s' = (if r = None then t\<lparr>writer_started := True\<rparr> else t)"
proof (cases "query_fails c (initial_url c)")
  case True
  with assms have "r = Some StoreError" "s' = s" by (simp_all add: start_scraping_def)
  then show ?thesis using queue_ext_refl [of s] only_link_rows_refl [of s] by auto
next
  case nf: False
  show ?thesis
  proof (cases "db s (initial_url c)")
    case (Some p)
    define s0 where "s0 = logging (InfoResuming (Suc 0) (initial_url c)) s"
    obtain r1 s1 where rs: "resume_scraping c s0 = (r1, s1)" by (cases "resume_scraping c s0")
    note fr = resume_scraping_frame [OF rs]
    have q: "queue_ext s s1"
      using fr queue_ext_refl [of s] by (simp add: queue_ext_def s0_def logging_def)
    have o: "only_link_rows s s1"
      by (rule only_link_rows_db) (simp add: fr s0_def logging_def)
    have w: "writer_started s1 = writer_started s" using fr by (simp add: s0_def logging_def)
    from assms nf Some rs have "r = r1 \<and> s' = (if r1 = None then s1\<lparr>writer_started := True\<rparr> else s1)"
      by (cases r1) (auto simp: start_scraping_def s0_def)
    with q o w show ?thesis by blast
  next
    case None
    define s0 where "s0 = logging (InfoStart (initial_url c) (max_depth c)) s"
    obtain out s1 where sc: "scrape c (initial_url c) 0 s0 = (out, s1)"
      by (cases "scrape c (initial_url c) 0 s0")
    have q: "queue_ext s s1"
      using scrape_queue_ext [of s0 c "initial_url c" 0] sc
      by (simp add: queue_ext_def s0_def logging_def)
    have o: "only_link_rows s s1"
      using scrape_only_link_rows [of s0 c "initial_url c" 0] sc
      by (simp add: only_link_rows_def s0_def logging_def)
    have w: "writer_started s1 = writer_started s"
      using scrape_writer_started [of c "initial_url c" 0 s0] sc by (simp add: s0_def logging_def)
    from assms nf None sc have "s' = (if r = None then s1\<lparr>writer_started := True\<rparr> else s1)"
      by (cases out) (auto simp: start_scraping_def s0_def)
    with q o w show ?thesis by blast
  qed
qed

lemma write_entry_queue_update:
  "write_entry c e (s\<lparr>db_insert_queue := q\<rparr>) = (write_entry c e s)\<lparr>db_insert_queue := q\<rparr>"
  by (cases e) (auto simp: write_entry_def logging_def Let_def split: sum.splits links_val.splits)

lemma fold_write_entry_queue_update:
  "fold (write_entry c) es (s\<lparr>db_insert_queue := q\<rparr>) =
     (fold (write_entry c) es s)\<lparr>db_insert_queue := q\<rparr>"
  by (induction es arbitrary: s) (simp_all add: write_entry_queue_update)

lemma run_db_inserts_drains:
  "db_insert_queue s = map Some es @ [None] \<Longrightarrow>
     run_db_inserts c s = (Exited, (fold (write_entry c) es s)\<lparr>db_insert_queue := []\<rparr>)"
proof (induction es arbitrary: s)
  case Nil
  then show ?case by (simp add: run_db_inserts_sentinel)
next
  case (Cons e es)
  let ?s1 = "write_entry c e (s\<lparr>db_insert_queue := map Some es @ [None]\<rparr>)"
  have "db_insert_queue ?s1 = map Some es @ [None]" by (simp add: write_entry_queue)
  from Cons.IH [OF this] Cons.prems show ?case
    by (simp add: run_db_inserts_entry write_entry_queue_update fold_write_entry_queue_update)
qed

lemma main_drains_queue:
  assumes m: "main c (init_state pages b) = (Inr w, sf)"
  shows "w = Exited \<and> db_insert_queue sf = [] \<and>
      (\<exists>new. db_insert_queue (snd (start_scraping c (init_state pages b))) = map Some new \<and>
             sf = (fold (write_entry c) new (snd (start_scraping c (init_state pages b))))
                    \<lparr>db_insert_queue := []\<rparr>)"
proof -
  let ?s0 = "init_state pages b"
  obtain r s' where st: "start_scraping c ?s0 = (r, s')" by (cases "start_scraping c ?s0")
  from m st have r: "r = None" by (cases r) (simp_all add: main_def)
  obtain t where t: "queue_ext ?s0 t" "s' = (if r = None then t\<lparr>writer_started := True\<rparr> else t)"
    using start_scraping_traversal [OF st] by blast
  with r have "\<exists>new. db_insert_queue s' = map Some new"
    by (simp add: queue_ext_def init_state_def)
  then obtain new where new: "db_insert_queue s' = map Some new" by blast
  then have "db_insert_queue (cleanup s') = map Some new @ [None]" by (simp add: cleanup_def)
  from run_db_inserts_drains [OF this, of c]
  have run: "run_db_inserts c (cleanup s') =
      (Exited, (fold (write_entry c) new s')\<lparr>db_insert_queue := []\<rparr>)"
    by (simp add: cleanup_def fold_write_entry_queue_update)
  from m st r run have res: "w = Exited" "sf = (fold (write_entry c) new s')\<lparr>db_insert_queue := []\<rparr>"
    by (simp_all add: main_def)
  from res new st show ?thesis by auto
qed

section \<open>Evaluation on the site of one page\<close>

lemmas solo_defs = solo_cfg_def solo_web_def solo_row_def

lemma solo_start:
  "0 \<le> md \<Longrightarrow> start_scraping (solo_cfg md) (init_state Map.empty blank) = (None, solo_after md)"
  by (simp add: start_scraping_def scrape.simps [where d = 0] step_defs solo_defs site_defs
        solo_after_def)

lemma solo_main:
  assumes "0 \<le> md"
  shows "main (solo_cfg md) (init_state Map.empty blank) =
     (Inr Exited, (solo_after md)\<lparr>db_insert_queue := [], db := [''https://site.test/'' \<mapsto> solo_row]\<rparr>)"
proof -
  have q: "db_insert_queue (cleanup (solo_after md)) =
      map Some [(''https://site.test/'', ''https://site.test/'', 0, ''Home'', LinksList [])] @ [None]"
    by (simp add: cleanup_def solo_after_def)
  have w: "write_entry (solo_cfg md)
        (''https://site.test/'', ''https://site.test/'', 0, ''Home'', LinksList [])
        (cleanup (solo_after md)) =
      (cleanup (solo_after md))\<lparr>db := [''https://site.test/'' \<mapsto> solo_row]\<rparr>"
    by (simp add: write_entry_def json_dumps_collection encode_list_empty utf8_encode_def
          utf8_char_def Let_def solo_defs site_cfg_def cleanup_def solo_after_def)
  from run_db_inserts_drains [OF q, of "solo_cfg md"] w
  have "run_db_inserts (solo_cfg md) (cleanup (solo_after md)) =
      (Exited, (solo_after md)\<lparr>db_insert_queue := [], db := [''https://site.test/'' \<mapsto> solo_row]\<rparr>)"
    by (simp add: cleanup_def)
  with solo_start [OF assms] show ?thesis by (simp add: main_def)
qed

section \<open>The writer starts after the traversal\<close>

text \<open>
  C9. \<open>start_scraping\<close> starts the insert thread only when \<open>scrape\<close> or \<open>resume_scraping\<close>
  has returned without an exception. In the state it leaves, the queue is the queue it
  found followed by the entries of the traversal, none taken off and none of them the
  sentinel, and the table differs from the table it found only by the placeholder rows
  and depth increments of \<open>get_link\<close>: no entry has been written. When \<open>main\<close> runs to
  its end from a fresh scraper, the writer has exited, the queue is empty, and the final
  state is the state after the traversal with every queued entry handed to the writer's
  loop body in order.
\<close>

theorem writer_runs_after_traversal:
  "(\<not> writer_started s \<and> start_scraping c s = (r, s') \<longrightarrow>
      queue_ext s s' \<and> only_link_rows s s' \<and> (writer_started s' \<longleftrightarrow> r = None)) \<and>
   (main c (init_state pages b) = (Inr w, sf) \<longrightarrow>
      w = Exited \<and> db_insert_queue sf = [] \<and>
      (\<exists>new. db_insert_queue (snd (start_scraping c (init_state pages b))) = map Some new \<and>
             sf = (fold (write_entry c) new (snd (start_scraping c (init_state pages b))))
                    \<lparr>db_insert_queue := []\<rparr>))"
proof (intro conjI impI)
  assume a: "\<not> writer_started s \<and> start_scraping c s = (r, s')"
  then obtain t where t: "queue_ext s t" "only_link_rows s t" "writer_started t = writer_started s"
    "s' = (if r = None then t\<lparr>writer_started := True\<rparr> else t)"
    using start_scraping_traversal [of c s r s'] by blast
  from t show "queue_ext s s'" by (simp add: queue_ext_def)
  from t show "only_link_rows s s'" by (simp add: only_link_rows_def)
  from t a show "writer_started s' \<longleftrightarrow> r = None" by simp
next
  assume m: "main c (init_state pages b) = (Inr w, sf)"
  from main_drains_queue [OF m] show "w = Exited" by simp
  from main_drains_queue [OF m] show "db_insert_queue sf = []" by simp
  from main_drains_queue [OF m]
  show "\<exists>new. db_insert_queue (snd (start_scraping c (init_state pages b))) = map Some new \<and>
             sf = (fold (write_entry c) new (snd (start_scraping c (init_state pages b))))
                    \<lparr>db_insert_queue := []\<rparr>"
    by simp
qed

theorem writer_runs_after_traversal_witness:
  "start_scraping (solo_cfg 1) (init_state Map.empty blank) = (None, solo_after 1) \<and>
   queue_ext (init_state Map.empty blank) (solo_after 1) \<and>
   only_link_rows (init_state Map.empty blank) (solo_after 1) \<and>
   writer_started (solo_after 1) \<and>
   db_insert_queue (solo_after 1) =
     [Some (''https://site.test/'', ''https://site.test/'', 0, ''Home'', LinksList [])] \<and>
   main (solo_cfg 1) (init_state Map.empty blank) =
     (Inr Exited, (solo_after 1)\<lparr>db_insert_queue := [], db := [''https://site.test/'' \<mapsto> solo_row]\<rparr>) \<and>
   db_insert_queue ((solo_after 1)\<lparr>db_insert_queue := [], db := [''https://site.test/'' \<mapsto> solo_row]\<rparr>) = []"
proof -
  have a: "\<not> writer_started (init_state Map.empty blank)" by (simp add: init_state_def)
  have b: "start_scraping (solo_cfg 1) (init_state Map.empty blank) = (None, solo_after 1)"
    by (rule solo_start) simp
  have c: "main (solo_cfg 1) (init_state Map.empty blank) =
     (Inr Exited, (solo_after 1)\<lparr>db_insert_queue := [], db := [''https://site.test/'' \<mapsto> solo_row]\<rparr>)"
    by (rule solo_main) simp
  from writer_runs_after_traversal [of "init_state Map.empty blank" "solo_cfg 1" None "solo_after 1"
      Map.empty blank Exited
      "(solo_after 1)\<lparr>db_insert_queue := [], db := [''https://site.test/'' \<mapsto> solo_row]\<rparr>"] a b c
  show ?thesis by (simp add: solo_after_def)
qed

section \<open>Running the crawler again\<close>






end
